theory Spec2Isabelle
  imports Main "HOL-Library.Word"
begin

section \<open>connection.hpp: ids, handles and guards\<close>

text \<open>
  \<^verbatim>\<open>std::size_t\<close> is read as a 64-bit word: \<^verbatim>\<open>++highestID_\<close> wraps around.
\<close>

type_synonym size_t = "64 word"

subsection \<open>ConnectionID\<close>

text \<open>
  \<^verbatim>\<open>struct ConnectionID { std::size_t value; reset() { value = 0; } valid() { return value; } }\<close>.
  The struct has the one member, so an id is read as that word; \<^verbatim>\<open>ID {}\<close> is 0 and
  \<^verbatim>\<open>operator==\<close> compares the values.
\<close>

type_synonym ConnectionID = size_t

definition ConnectionID_reset :: "ConnectionID \<Rightarrow> ConnectionID" where
  "ConnectionID_reset i = 0"

definition ConnectionID_valid :: "ConnectionID \<Rightarrow> bool" where
  "ConnectionID_valid i = (i \<noteq> 0)"

subsection \<open>TrackedConnectionID\<close>

text \<open>
  \<^verbatim>\<open>struct TrackedConnectionID { std::shared_ptr<std::size_t> value; ... }\<close>.
  The cells that the shared pointers own live in a store of their own, addressed by
  natural numbers; \<open>cells_used\<close> counts the cells \<^verbatim>\<open>make_shared\<close> has handed out, and is
  the address of the next one. A cell is owned by the ids that point to it and by
  nothing else, so it outlives every object that does not hold such an id; a cell
  nobody points to is never read, and the store keeps it.
\<close>

record cell_store =
  cell :: "nat \<Rightarrow> size_t"
  cells_used :: nat

record TrackedConnectionID =
  "value" :: "nat option"

text \<open>\<^verbatim>\<open>TrackedConnectionID(std::size_t val) : value(std::make_shared<std::size_t>(val)) {}\<close>\<close>

definition TrackedConnectionID_make ::
  "size_t \<Rightarrow> cell_store \<Rightarrow> TrackedConnectionID \<times> cell_store" where
  "TrackedConnectionID_make v h =
     (\<lparr>value = Some (cells_used h)\<rparr>,
      h\<lparr>cell := (cell h)(cells_used h := v), cells_used := Suc (cells_used h)\<rparr>)"

text \<open>\<^verbatim>\<open>void reset() { if(value) *value = 0; value.reset(); }\<close>\<close>

definition TrackedConnectionID_reset ::
  "TrackedConnectionID \<Rightarrow> cell_store \<Rightarrow> TrackedConnectionID \<times> cell_store" where
  "TrackedConnectionID_reset x h =
     (case value x of
        None \<Rightarrow> (\<lparr>value = None\<rparr>, h)
      | Some p \<Rightarrow> (\<lparr>value = None\<rparr>, h\<lparr>cell := (cell h)(p := 0)\<rparr>))"

text \<open>\<^verbatim>\<open>bool valid() const { return value && *value; }\<close>\<close>

definition TrackedConnectionID_valid :: "TrackedConnectionID \<Rightarrow> cell_store \<Rightarrow> bool" where
  "TrackedConnectionID_valid x h =
     (case value x of None \<Rightarrow> False | Some p \<Rightarrow> cell h p \<noteq> 0)"

subsection \<open>ConnectionT\<close>

text \<open>
  \<^verbatim>\<open>ConnectionT<C, ID>\<close> holds \<^verbatim>\<open>C* connectable_\<close> and \<^verbatim>\<open>ID id_\<close>; copying a handle
  copies both members, so the copies of a tracked handle point to one cell.
\<close>

record ('c, 'id) ConnectionT =
  connectable :: "'c option"
  id_c :: 'id

text \<open>
  A connectable is anything with \<^verbatim>\<open>virtual bool disconnect(const ID& id)\<close>. The call may
  raise (the guard's destructor catches \<^verbatim>\<open>std::exception\<close>), so its result is a sum;
  \<open>'c\<close> names the object and \<open>'w\<close> is the state the call works on.
\<close>

datatype exn = Exception

type_synonym ('c, 'id, 'w) ConnectableT = "'c \<Rightarrow> 'id \<Rightarrow> 'w \<Rightarrow> (exn + bool) \<times> 'w"

text \<open>
  \<^verbatim>\<open>void disconnect() { if(connectable_) connectable_->disconnect(id_); connectable_ = {}; id_ = {}; }\<close>
  for \<^verbatim>\<open>Connection = ConnectionT<Connectable, ConnectionID>\<close>. The first component of the
  result is what the forwarded call did: \<open>None\<close> when no call was made, \<open>Some (Inl e)\<close>
  when it raised (the exception leaves \<^verbatim>\<open>disconnect()\<close> before the members are
  cleared), \<open>Some (Inr b)\<close> when it returned \<open>b\<close>.
\<close>

definition Connection_disconnect ::
  "('c, ConnectionID, 'w) ConnectableT \<Rightarrow> ('c, ConnectionID) ConnectionT \<Rightarrow> 'w
     \<Rightarrow> (exn + bool) option \<times> ('c, ConnectionID) ConnectionT \<times> 'w" where
  "Connection_disconnect d h w =
     (case connectable h of
        None \<Rightarrow> (None, \<lparr>connectable = None, id_c = 0\<rparr>, w)
      | Some c \<Rightarrow>
          (case d c (id_c h) w of
             (Inl e, w') \<Rightarrow> (Some (Inl e), h, w')
           | (Inr b, w') \<Rightarrow> (Some (Inr b), \<lparr>connectable = None, id_c = 0\<rparr>, w')))"

subsection \<open>UniqueConnectionT\<close>

text \<open>
  The guard, for \<^verbatim>\<open>UniqueConnection = UniqueConnectionT<Connectable, ConnectionID>\<close>. Its
  member functions read and write \<^verbatim>\<open>conn_\<close> and \<^verbatim>\<open>id_\<close>.
\<close>

record 'c UniqueConnection =
  conn :: "'c option"
  id_u :: ConnectionID

text \<open>\<^verbatim>\<open>void disconnect() { if(conn_) conn_->disconnect(id_); conn_ = {}; id_ = {}; }\<close>\<close>

definition UniqueConnection_disconnect ::
  "('c, ConnectionID, 'w) ConnectableT \<Rightarrow> 'c UniqueConnection \<Rightarrow> 'w
     \<Rightarrow> (exn + bool) option \<times> 'c UniqueConnection \<times> 'w" where
  "UniqueConnection_disconnect d g w =
     (case conn g of
        None \<Rightarrow> (None, \<lparr>conn = None, id_u = 0\<rparr>, w)
      | Some c \<Rightarrow>
          (case d c (id_u g) w of
             (Inl e, w') \<Rightarrow> (Some (Inl e), g, w')
           | (Inr b, w') \<Rightarrow> (Some (Inr b), \<lparr>conn = None, id_u = 0\<rparr>, w')))"

text \<open>
  \<^verbatim>\<open>~UniqueConnectionT() { try { disconnect(); } catch(const std::exception& error) { ... } }\<close>:
  the destructor runs \<^verbatim>\<open>disconnect()\<close> and swallows what it raises. The result keeps
  what the forwarded call did and the members as \<^verbatim>\<open>disconnect()\<close> left them.
\<close>

definition UniqueConnection_dtor ::
  "('c, ConnectionID, 'w) ConnectableT \<Rightarrow> 'c UniqueConnection \<Rightarrow> 'w
     \<Rightarrow> (exn + bool) option \<times> 'c UniqueConnection \<times> 'w" where
  "UniqueConnection_dtor d g w = UniqueConnection_disconnect d g w"

text \<open>\<^verbatim>\<open>ID release() { auto cpy = id_; id_ = {}; conn_ = {}; return cpy; }\<close>\<close>

definition UniqueConnection_release ::
  "'c UniqueConnection \<Rightarrow> ConnectionID \<times> 'c UniqueConnection" where
  "UniqueConnection_release g = (id_u g, \<lparr>conn = None, id_u = 0\<rparr>)"

text \<open>
  What a program does to one guard: calls of \<^verbatim>\<open>disconnect()\<close> and \<^verbatim>\<open>release()\<close>, and
  its destruction. \<open>guard_run\<close> runs such a sequence and lists, per operation, what
  was forwarded to the connectable. (No operation follows the destructor in a C++
  program; here a later operation works on the members as the destructor left them.)
\<close>

datatype guard_op = OpDisconnect | OpRelease | OpDestroy

fun guard_step ::
  "('c, ConnectionID, 'w) ConnectableT \<Rightarrow> guard_op \<Rightarrow> 'c UniqueConnection \<Rightarrow> 'w
     \<Rightarrow> (exn + bool) option \<times> 'c UniqueConnection \<times> 'w" where
  "guard_step d OpDisconnect g w = UniqueConnection_disconnect d g w"
| "guard_step d OpDestroy g w = UniqueConnection_dtor d g w"
| "guard_step d OpRelease g w = (None, snd (UniqueConnection_release g), w)"

fun guard_run ::
  "('c, ConnectionID, 'w) ConnectableT \<Rightarrow> guard_op list \<Rightarrow> 'c UniqueConnection \<Rightarrow> 'w
     \<Rightarrow> (exn + bool) option list \<times> 'c UniqueConnection \<times> 'w" where
  "guard_run d [] g w = ([], g, w)"
| "guard_run d (x # xs) g w =
     (case guard_step d x g w of
        (r, g', w') \<Rightarrow> (case guard_run d xs g' w' of (rs, g'', w'') \<Rightarrow> (r # rs, g'', w'')))"

text \<open>
  \<open>forwarded r\<close>: the operation called \<^verbatim>\<open>disconnect(id)\<close> on the connectable.
  \<open>completed r\<close>: it did, and the call returned; only such a call can have cancelled
  the registration.
\<close>

fun forwarded :: "(exn + bool) option \<Rightarrow> bool" where
  "forwarded None = False"
| "forwarded (Some r) = True"

fun completed :: "(exn + bool) option \<Rightarrow> bool" where
  "completed (Some (Inr b)) = True"
| "completed r = False"

section \<open>callback.hpp: the registry\<close>

subsection \<open>Listeners\<close>

text \<open>
  A registered function is arbitrary code that receives the \<^verbatim>\<open>Conn\<close> of its own
  registration and the arguments of the call, and that can reach the callback it is
  registered at. What it does to the callback is written as a list of statements; the
  value it returns may depend on the id of the handle it received and on the arguments.
  \<^item> \<open>Disconnect i\<close>: \<^verbatim>\<open>disconnect(i)\<close> on the callback (through any handle holding \<open>i\<close>);
  \<^item> \<open>DisconnectSelf\<close>: \<^verbatim>\<open>disconnect()\<close> on the handle the function received, or on a
    copy of it;
  \<^item> \<open>Call b\<close>: a nested \<^verbatim>\<open>call(b)\<close> on the same callback, its result dropped;
  \<^item> \<open>Clear\<close>: \<^verbatim>\<open>clear()\<close> on the callback;
  \<^item> \<open>Throw\<close>: the function raises;
  \<^item> \<open>Add f\<close>: \<^verbatim>\<open>add(f)\<close> on the callback, the handle dropped.
  \<open>body f a\<close> are the statements of \<open>f\<close> called with arguments \<open>a\<close>, and
  \<open>result f i a\<close> is what it returns when the handle it received holds id \<open>i\<close>.
\<close>

datatype ('a, 'r) stmt =
    Disconnect ConnectionID | DisconnectSelf | Call 'a | Clear | Throw
  | Add "('a, 'r) listener"
and ('a, 'r) listener =
    Listener (body: "'a \<Rightarrow> ('a, 'r) stmt list") (result: "ConnectionID \<Rightarrow> 'a \<Rightarrow> 'r")

subsection \<open>Slots, call frames and the callback object\<close>

text \<open>
  \<^verbatim>\<open>struct CallbackSlot { ID id; std::function<Ret(Conn, Args...)> func; CallbackSlot* next; }\<close>.
  The slots hang on the chain of \<^verbatim>\<open>next\<close> pointers that starts at \<^verbatim>\<open>slots_\<close>; the
  callback owns every node and no node is on the chain twice, so the chain is the list
  of its nodes in order, each with the address \<^verbatim>\<open>new\<close> gave it (\<open>addr\<close>), and the
  \<^verbatim>\<open>next\<close> member of a node is the address of the node after it in the list
  (\<open>successor\<close> below). An empty \<^verbatim>\<open>std::function\<close> is \<open>None\<close>.
\<close>

record ('id, 'f) CallbackSlot =
  addr :: nat
  slot_id :: 'id
  func :: "'f option"

text \<open>
  \<^verbatim>\<open>struct CallIter { CallbackSlot* next {}; CallIter* above {}; ... }\<close>. The frames of
  the calls in flight are a stack: \<^verbatim>\<open>callIter_\<close> points to the innermost one and
  \<^verbatim>\<open>above\<close> to the frame of the enclosing call, so the stack is the list of frames,
  innermost first, and \<^verbatim>\<open>above\<close> of a frame is the rest of the list.
  \<^verbatim>\<open>call()\<close> reads and writes a third member, \<^verbatim>\<open>current\<close>, which the struct does not
  declare. What \<^verbatim>\<open>call()\<close> does with it (it is compared with \<^verbatim>\<open>slots.size()\<close>, used as
  the subscript of \<^verbatim>\<open>slots\<close> and incremented) makes it a position in the sequence of
  slots.
\<close>

record CallIter =
  current :: nat
  "next" :: "nat option"

text \<open>
  Modelled from the spec: the frame that \<^verbatim>\<open>CallIter stackIter;\<close> makes. The initializer
  of \<^verbatim>\<open>current\<close> is missing with its declaration; the spec has the cursor of a new
  frame start "at the registry's first entry", which is position 0. The declared
  pointer \<^verbatim>\<open>next\<close> is initialized with \<^verbatim>\<open>{}\<close>: null.
\<close>

definition CallIter_init :: CallIter where [simp]:
  "CallIter_init = \<lparr>current = 0, next = None\<rparr>"

text \<open>
  The members \<^verbatim>\<open>highestID_\<close>, \<^verbatim>\<open>slots_\<close> and \<^verbatim>\<open>callIter_\<close>, for
  \<^verbatim>\<open>Callback<Ret(Args...), ConnectionID>\<close>. \<open>allocated\<close> counts the nodes \<^verbatim>\<open>new\<close> has
  created and is the address of the next one: no address is handed out twice.
\<close>

record ('a, 'r) Callback =
  highestID :: size_t
  slots :: "(ConnectionID, ('a, 'r) listener) CallbackSlot list"
  callIter :: "CallIter list"
  allocated :: nat

definition Callback_init :: "('a, 'r) Callback" where
  "Callback_init = \<lparr>highestID = 0, slots = [], callIter = [], allocated = 0\<rparr>"

text \<open>\<^verbatim>\<open>slots_\<close> as a pointer: the address of the first node, or null.\<close>

fun first_slot :: "('id, 'f) CallbackSlot list \<Rightarrow> nat option" where
  "first_slot [] = None"
| "first_slot (s # ss) = Some (addr s)"

text \<open>\<^verbatim>\<open>p->next\<close> for the node at address \<open>p\<close>.\<close>

fun successor :: "('id, 'f) CallbackSlot list \<Rightarrow> nat \<Rightarrow> nat option" where
  "successor [] p = None"
| "successor (s # ss) p = (if addr s = p then first_slot ss else successor ss p)"

subsection \<open>emplace and add\<close>

text \<open>
  \<^verbatim>\<open>emplace()\<close>: \<^verbatim>\<open>auto id = ++highestID_;\<close> then a new node with that id, as
  \<^verbatim>\<open>slots_\<close> when the chain is empty and behind the last node otherwise. Both branches
  append to the list.
\<close>

definition emplace :: "('a, 'r) Callback \<Rightarrow> ('a, 'r) Callback" where
  "emplace cb =
     (let i = highestID cb + 1 in
      cb\<lparr>highestID := i,
         slots := slots cb @ [\<lparr>addr = allocated cb, slot_id = i, func = None\<rparr>],
         allocated := Suc (allocated cb)\<rparr>)"

text \<open>\<^verbatim>\<open>slots_.back().func = f\<close>\<close>

fun set_back_func ::
  "'f \<Rightarrow> ('id, 'f) CallbackSlot list \<Rightarrow> ('id, 'f) CallbackSlot list" where
  "set_back_func f [] = []"
| "set_back_func f [s] = [s\<lparr>func := Some f\<rparr>]"
| "set_back_func f (s # ss) = s # set_back_func f ss"

fun back_id :: "('id, 'f) CallbackSlot list \<Rightarrow> 'id option" where
  "back_id [] = None"
| "back_id [s] = Some (slot_id s)"
| "back_id (s # ss) = back_id ss"

text \<open>
  \<^verbatim>\<open>Conn add(std::function<Ret(Conn, Args...)> func)\<close>:
  \<^verbatim>\<open>emplace(); slots_.back().func = std::move(func); return {*this, slots_.back().id};\<close>.
  The overload for a function without the \<^verbatim>\<open>Conn\<close> parameter wraps it and does the
  same. The handle returned is read as its id (its \<^verbatim>\<open>connectable_\<close> is this callback).
\<close>

definition add :: "('a, 'r) listener \<Rightarrow> ('a, 'r) Callback \<Rightarrow> ConnectionID \<times> ('a, 'r) Callback" where
  "add f cb =
     (let cb1 = emplace cb; cb2 = cb1\<lparr>slots := set_back_func f (slots cb1)\<rparr>
      in (case back_id (slots cb2) of None \<Rightarrow> (0, cb2) | Some i \<Rightarrow> (i, cb2)))"

subsection \<open>disconnect and clear\<close>

text \<open>
  \<^verbatim>\<open>void checkErase(CallbackSlot* slot) { if(slot == next) next = slot->next; if(above) above->checkErase(slot); }\<close>,
  called on the innermost frame; \<open>nx\<close> is \<^verbatim>\<open>slot->next\<close> and \<open>fs\<close> are the
  frames above.
\<close>

fun checkErase :: "nat \<Rightarrow> nat option \<Rightarrow> CallIter list \<Rightarrow> CallIter list" where
  "checkErase slot nx [] = []"
| "checkErase slot nx (f # fs) =
     (if next f = Some slot then f\<lparr>next := nx\<rparr> else f) # checkErase slot nx fs"

text \<open>
  The loop of \<^verbatim>\<open>disconnect\<close>,
  \<^verbatim>\<open>for(auto it = slots_; it && it->next; it = it->next) if(it->next->id == id) ...\<close>:
  the address of the first node \<^verbatim>\<open>it\<close> whose successor holds the id.
\<close>

fun iterate :: "'id \<Rightarrow> ('id, 'f) CallbackSlot list \<Rightarrow> nat option" where
  "iterate i (it # nx # rest) =
     (if slot_id nx = i then Some (addr it) else iterate i (nx # rest))"
| "iterate i ss = None"

text \<open>\<^verbatim>\<open>it->id.reset()\<close> for the node at address \<open>p\<close>.\<close>

definition reset_id ::
  "nat \<Rightarrow> (ConnectionID, 'f) CallbackSlot list \<Rightarrow> (ConnectionID, 'f) CallbackSlot list" where
  "reset_id p ss = map (\<lambda>s. if addr s = p then s\<lparr>slot_id := ConnectionID_reset (slot_id s)\<rparr> else s) ss"

text \<open>
  \<^verbatim>\<open>bool disconnect(const ID& id)\<close>, statement by statement.
  \<^item> \<^verbatim>\<open>if(id == ID {} || !slots_) return false;\<close>
  \<^item> The branch for the first node: the frames are told (\<^verbatim>\<open>checkErase(slots_)\<close>), the
    id of the node is reset, the node is unlinked and deleted. The branch has no
    \<^verbatim>\<open>return\<close>: control goes on to the loop.
  \<^item> The loop looks at the successor of each node. On a match it resets the id of
    \<^verbatim>\<open>it\<close>, the node before the matching one, calls \<^verbatim>\<open>checkErase(it - slots_.begin())\<close>
    and returns true; it unlinks nothing. The argument of that call is the
    position of \<^verbatim>\<open>it\<close>, where the parameter is a node: it is read as the node at
    that position, \<^verbatim>\<open>it\<close> itself.
  \<^item> \<^verbatim>\<open>return false;\<close>
\<close>

definition disconnect :: "ConnectionID \<Rightarrow> ('a, 'r) Callback \<Rightarrow> bool \<times> ('a, 'r) Callback" where
  "disconnect i cb =
     (if i = 0 \<or> slots cb = [] then (False, cb)
      else
        let cb1 =
          (case slots cb of
             [] \<Rightarrow> cb
           | s # ss \<Rightarrow>
               if slot_id s = i
               then cb\<lparr>callIter := checkErase (addr s) (first_slot ss) (callIter cb), slots := ss\<rparr>
               else cb)
        in
          (case iterate i (slots cb1) of
             Some it \<Rightarrow>
               (True,
                cb1\<lparr>slots := reset_id it (slots cb1),
                    callIter := checkErase it (successor (slots cb1) it) (callIter cb1)\<rparr>)
           | None \<Rightarrow> (False, cb1)))"

text \<open>
  \<^verbatim>\<open>void clear() { for(auto& slot : slots_) slot.id.reset(); slots_.clear(); }\<close>: every
  id is reset and every node is released. The function does not mention \<^verbatim>\<open>callIter_\<close>.
\<close>

definition clear :: "('a, 'r) Callback \<Rightarrow> ('a, 'r) Callback" where
  "clear cb = cb\<lparr>slots := []\<rparr>"

subsection \<open>call\<close>

text \<open>
  \<^verbatim>\<open>detail::CallbackCall<Ret>::call\<close> pushes a frame, walks the slots through the cursor
  of that frame, and pops the frame:
  \<^verbatim>\<open>
  CallIter stackIter; stackIter.above = iter; iter = &stackIter;
  auto& idx = stackIter.current;
  while(idx < slots.size()) {
      const auto& slot = slots[idx];
      ++idx;
      ret.push_back(slot.func({cb, slot.id}, std::forward<Args>(args)...));
  }
  iter = stackIter.above;
  return ret;
  \<close>
  The specialization for \<^verbatim>\<open>void\<close> is the same loop without the vector (it prints a
  trace, and for the slot with id 2 it calls a copy of the function).
  The cursor \<^verbatim>\<open>idx\<close> is the member \<^verbatim>\<open>current\<close> of the frame on top of the stack, a
  position; \<^verbatim>\<open>slots.size()\<close> is the number of slots on the chain and \<^verbatim>\<open>slots[idx]\<close>
  the slot at that position. The function does not mention the member \<^verbatim>\<open>next\<close> of
  its frame, the pointer that \<^verbatim>\<open>checkErase\<close> looks at: it stays null.
\<close>

definition cursor :: "('a, 'r) Callback \<Rightarrow> nat" where
  "cursor cb = (case callIter cb of [] \<Rightarrow> 0 | f # fs \<Rightarrow> current f)"

definition set_cursor :: "nat \<Rightarrow> ('a, 'r) Callback \<Rightarrow> ('a, 'r) Callback" where
  "set_cursor c cb =
     (case callIter cb of [] \<Rightarrow> cb | f # fs \<Rightarrow> cb\<lparr>callIter := f\<lparr>current := c\<rparr> # fs\<rparr>)"

text \<open>
  \<^verbatim>\<open>CallIter stackIter; stackIter.above = iter; iter = &stackIter;\<close> and
  \<^verbatim>\<open>iter = stackIter.above;\<close>
\<close>

definition push_frame :: "('a, 'r) Callback \<Rightarrow> ('a, 'r) Callback" where
  "push_frame cb = cb\<lparr>callIter := CallIter_init # callIter cb\<rparr>"

definition pop_frame :: "('a, 'r) Callback \<Rightarrow> ('a, 'r) Callback" where
  "pop_frame cb = cb\<lparr>callIter := tl (callIter cb)\<rparr>"

text \<open>
  What ends a call other than its return: a registered function raised
  (\<open>ListenerFailure\<close>), or the \<^verbatim>\<open>std::function\<close> of the slot was empty
  (\<open>BadFunctionCall\<close>).
\<close>

datatype error = ListenerFailure | BadFunctionCall

text \<open>
  A registered function may call \<^verbatim>\<open>call\<close> again, and nothing bounds the recursion, so
  the three functions take fuel: \<open>None\<close> is a run that needs more than it was
  given. \<open>call\<close> is the function above; \<open>loop\<close> is its \<^verbatim>\<open>while\<close> with the vector
  \<^verbatim>\<open>ret\<close> built so far; \<open>run\<close> executes the statements of the function invoked for the
  slot with id \<open>i\<close>. An exception leaves \<open>call\<close> through the \<open>Inl\<close> branch, which
  returns the callback as it is: \<^verbatim>\<open>iter = stackIter.above;\<close> is not reached, and
  no destructor or handler stands in for it.
\<close>

fun call :: "nat \<Rightarrow> 'a \<Rightarrow> ('a, 'r) Callback \<Rightarrow> ((error + 'r list) \<times> ('a, 'r) Callback) option"
  and loop :: "nat \<Rightarrow> 'a \<Rightarrow> 'r list \<Rightarrow> ('a, 'r) Callback \<Rightarrow> ((error + 'r list) \<times> ('a, 'r) Callback) option"
  and run :: "nat \<Rightarrow> ConnectionID \<Rightarrow> 'a \<Rightarrow> ('a, 'r) stmt list \<Rightarrow> ('a, 'r) Callback \<Rightarrow> ((error + unit) \<times> ('a, 'r) Callback) option"
where
  "call 0 a cb = None"
| "call (Suc n) a cb =
     (case loop n a [] (push_frame cb) of
        None \<Rightarrow> None
      | Some (Inl e, cb') \<Rightarrow> Some (Inl e, cb')
      | Some (Inr ret, cb') \<Rightarrow> Some (Inr ret, pop_frame cb'))"
| "loop 0 a ret cb = None"
| "loop (Suc n) a ret cb =
     (let idx = cursor cb in
      if idx < length (slots cb)
      then
        (let slot = slots cb ! idx; cb1 = set_cursor (Suc idx) cb in
         case func slot of
           None \<Rightarrow> Some (Inl BadFunctionCall, cb1)
         | Some f \<Rightarrow>
             (case run n (slot_id slot) a (body f a) cb1 of
                None \<Rightarrow> None
              | Some (Inl e, cb2) \<Rightarrow> Some (Inl e, cb2)
              | Some (Inr u, cb2) \<Rightarrow>
                  loop n a (ret @ [result f (slot_id slot) a]) cb2))
      else Some (Inr ret, cb))"
| "run 0 i a ss cb = None"
| "run (Suc n) i a [] cb = Some (Inr (), cb)"
| "run (Suc n) i a (Disconnect j # ss) cb = run n i a ss (snd (disconnect j cb))"
| "run (Suc n) i a (DisconnectSelf # ss) cb = run n i a ss (snd (disconnect i cb))"
| "run (Suc n) i a (Clear # ss) cb = run n i a ss (clear cb)"
| "run (Suc n) i a (Throw # ss) cb = Some (Inl ListenerFailure, cb)"
| "run (Suc n) i a (Add f # ss) cb = run n i a ss (snd (add f cb))"
| "run (Suc n) i a (Call b # ss) cb =
     (case call n b cb of
        None \<Rightarrow> None
      | Some (Inl e, cb') \<Rightarrow> Some (Inl e, cb')
      | Some (Inr ret, cb') \<Rightarrow> run n i a ss cb')"

text \<open>
  The callback as a connectable: \<^verbatim>\<open>bool disconnect(const ID& id) override\<close>. It never
  raises.
\<close>

definition Callback_disconnect :: "(unit, ConnectionID, ('a, 'r) Callback) ConnectableT" where
  "Callback_disconnect c i cb = (case disconnect i cb of (b, cb') \<Rightarrow> (Inr b, cb'))"

subsection \<open>The destructor\<close>

text \<open>
  \<^verbatim>\<open>~Callback() { for(auto& slot : slots_) slot.id.reset(); }\<close>: the id of every slot
  still on the chain is reset; no \<^verbatim>\<open>func\<close> is called. For \<^verbatim>\<open>ConnectionID\<close> the reset
  writes the slot only.
\<close>

definition Callback_dtor :: "('a, 'r) Callback \<Rightarrow> ('a, 'r) Callback" where
  "Callback_dtor cb =
     cb\<lparr>slots := map (\<lambda>s. s\<lparr>slot_id := ConnectionID_reset (slot_id s)\<rparr>) (slots cb)\<rparr>"

text \<open>
  The same loop for \<^verbatim>\<open>TrackedCallback = Callback<Signature, TrackedConnectionID>\<close>, on
  the slots of the callback and the cell store: each reset writes the cell the id
  shares with the handles that were copied from it.
\<close>

fun TrackedCallback_dtor ::
  "(TrackedConnectionID, 'f) CallbackSlot list \<Rightarrow> cell_store
     \<Rightarrow> (TrackedConnectionID, 'f) CallbackSlot list \<times> cell_store" where
  "TrackedCallback_dtor [] h = ([], h)"
| "TrackedCallback_dtor (s # ss) h =
     (case TrackedConnectionID_reset (slot_id s) h of
        (i, h') \<Rightarrow>
          (case TrackedCallback_dtor ss h' of (ss', h'') \<Rightarrow> (s\<lparr>slot_id := i\<rparr> # ss', h'')))"

subsection \<open>The callback with tracked ids\<close>

text \<open>
  \<^verbatim>\<open>TrackedCallback = Callback<Signature, TrackedConnectionID>\<close> has the same member
  functions, instantiated for ids that point to shared cells, so each comes with the
  cell store. \<^verbatim>\<open>ID {}\<close> is the null pointer and \<^verbatim>\<open>operator==\<close> compares the pointers.
\<close>

record 'f TrackedCallback =
  t_highestID :: size_t
  t_slots :: "(TrackedConnectionID, 'f) CallbackSlot list"
  t_callIter :: "CallIter list"
  t_allocated :: nat

definition TrackedCallback_init :: "'f TrackedCallback" where
  "TrackedCallback_init = \<lparr>t_highestID = 0, t_slots = [], t_callIter = [], t_allocated = 0\<rparr>"

text \<open>
  \<^verbatim>\<open>emplace()\<close>: the assignment \<^verbatim>\<open>slots_->id = id\<close> of the number
  \<^verbatim>\<open>++highestID_\<close> goes through \<^verbatim>\<open>TrackedConnectionID(std::size_t)\<close>, which makes a
  new cell that holds the number.
\<close>

definition TrackedCallback_emplace ::
  "'f TrackedCallback \<Rightarrow> cell_store \<Rightarrow> 'f TrackedCallback \<times> cell_store" where
  "TrackedCallback_emplace cb h =
     (let i = t_highestID cb + 1 in
      case TrackedConnectionID_make i h of
        (x, h') \<Rightarrow>
          (cb\<lparr>t_highestID := i,
              t_slots := t_slots cb @ [\<lparr>addr = t_allocated cb, slot_id = x, func = None\<rparr>],
              t_allocated := Suc (t_allocated cb)\<rparr>,
           h'))"

text \<open>
  \<^verbatim>\<open>add\<close>: \<^verbatim>\<open>emplace(); slots_.back().func = std::move(func); return {*this, slots_.back().id};\<close>.
  The handle returned holds a copy of the id of the slot: a pointer to the same cell.
\<close>

definition TrackedCallback_add ::
  "'f \<Rightarrow> 'f TrackedCallback \<Rightarrow> cell_store
     \<Rightarrow> (unit, TrackedConnectionID) ConnectionT \<times> 'f TrackedCallback \<times> cell_store" where
  "TrackedCallback_add f cb h =
     (case TrackedCallback_emplace cb h of
        (cb1, h') \<Rightarrow>
          (let cb2 = cb1\<lparr>t_slots := set_back_func f (t_slots cb1)\<rparr> in
           (\<lparr>connectable = Some (),
             id_c = (case back_id (t_slots cb2) of None \<Rightarrow> \<lparr>value = None\<rparr> | Some x \<Rightarrow> x)\<rparr>,
            cb2, h')))"

text \<open>\<^verbatim>\<open>it->id.reset()\<close> for the node at address \<open>p\<close>.\<close>

fun TrackedCallback_reset_id ::
  "nat \<Rightarrow> (TrackedConnectionID, 'f) CallbackSlot list \<Rightarrow> cell_store
     \<Rightarrow> (TrackedConnectionID, 'f) CallbackSlot list \<times> cell_store" where
  "TrackedCallback_reset_id p [] h = ([], h)"
| "TrackedCallback_reset_id p (s # ss) h =
     (if addr s = p
      then (case TrackedConnectionID_reset (slot_id s) h of (x, h') \<Rightarrow> (s\<lparr>slot_id := x\<rparr> # ss, h'))
      else (case TrackedCallback_reset_id p ss h of (ss', h') \<Rightarrow> (s # ss', h')))"

text \<open>
  \<^verbatim>\<open>bool disconnect(const ID& id)\<close>, the statements of \<open>disconnect\<close> above: the branch
  for the first node resets the id of that node (it zeroes its cell) and unlinks it;
  the loop, on a match at the successor of \<^verbatim>\<open>it\<close>, resets the id of \<^verbatim>\<open>it\<close>.
\<close>

definition TrackedCallback_disconnect ::
  "TrackedConnectionID \<Rightarrow> 'f TrackedCallback \<Rightarrow> cell_store
     \<Rightarrow> bool \<times> 'f TrackedCallback \<times> cell_store" where
  "TrackedCallback_disconnect i cb h =
     (if i = \<lparr>value = None\<rparr> \<or> t_slots cb = [] then (False, cb, h)
      else
        let (cb1, h1) =
          (case t_slots cb of
             [] \<Rightarrow> (cb, h)
           | s # ss \<Rightarrow>
               if slot_id s = i
               then (cb\<lparr>t_callIter := checkErase (addr s) (first_slot ss) (t_callIter cb),
                        t_slots := ss\<rparr>,
                     snd (TrackedConnectionID_reset (slot_id s) h))
               else (cb, h))
        in
          (case iterate i (t_slots cb1) of
             Some it \<Rightarrow>
               (case TrackedCallback_reset_id it (t_slots cb1) h1 of
                  (ss', h2) \<Rightarrow>
                    (True,
                     cb1\<lparr>t_slots := ss',
                         t_callIter := checkErase it (successor (t_slots cb1) it) (t_callIter cb1)\<rparr>,
                     h2))
           | None \<Rightarrow> (False, cb1, h1)))"

text \<open>
  The tracked callback as a connectable, and \<^verbatim>\<open>ConnectionT::disconnect()\<close> for
  \<^verbatim>\<open>TrackedConnection = ConnectionT<TrackedConnectable, TrackedConnectionID>\<close>:
  \<^verbatim>\<open>if(connectable_) connectable_->disconnect(id_); connectable_ = {}; id_ = {};\<close>.
  The last assignment drops the pointer of this handle; it does not write the cell.
\<close>

definition TrackedCallback_connectable ::
  "(unit, TrackedConnectionID, 'f TrackedCallback \<times> cell_store) ConnectableT" where
  "TrackedCallback_connectable c i w =
     (case TrackedCallback_disconnect i (fst w) (snd w) of (b, cb', h') \<Rightarrow> (Inr b, (cb', h')))"

definition TrackedConnection_disconnect ::
  "('c, TrackedConnectionID, 'w) ConnectableT \<Rightarrow> ('c, TrackedConnectionID) ConnectionT \<Rightarrow> 'w
     \<Rightarrow> (exn + bool) option \<times> ('c, TrackedConnectionID) ConnectionT \<times> 'w" where
  "TrackedConnection_disconnect d c w =
     (case connectable c of
        None \<Rightarrow> (None, \<lparr>connectable = None, id_c = \<lparr>value = None\<rparr>\<rparr>, w)
      | Some x \<Rightarrow>
          (case d x (id_c c) w of
             (Inl e, w') \<Rightarrow> (Some (Inl e), c, w')
           | (Inr b, w') \<Rightarrow> (Some (Inr b), \<lparr>connectable = None, id_c = \<lparr>value = None\<rparr>\<rparr>, w')))"


subsection \<open>Sequences of registrations, and the registries used as examples\<close>

text \<open>
  \<open>add_all fs cb\<close> calls \<^verbatim>\<open>add\<close> for each function of \<open>fs\<close> in turn; it returns the
  ids of the handles in the order they were issued, and the callback.
\<close>

fun add_all ::
  "('a, 'r) listener list \<Rightarrow> ('a, 'r) Callback \<Rightarrow> ConnectionID list \<times> ('a, 'r) Callback" where
  "add_all [] cb = ([], cb)"
| "add_all (f # fs) cb =
     (case add f cb of (i, cb1) \<Rightarrow> (case add_all fs cb1 of (js, cb2) \<Rightarrow> (i # js, cb2)))"

text \<open>
  \<open>registry fs\<close> is a fresh callback after \<^verbatim>\<open>add\<close> of each function of \<open>fs\<close>.
  \<open>returning k ss\<close> is a registered function that runs the statements \<open>ss\<close> and
  returns \<open>k\<close>; \<open>nesting k\<close> calls the callback again with argument 1 when it is
  itself called with argument 0, and returns \<open>k\<close> plus its argument.
\<close>

definition registry :: "('a, 'r) listener list \<Rightarrow> ('a, 'r) Callback" where
  "registry fs = snd (add_all fs Callback_init)"

definition returning :: "nat \<Rightarrow> (nat, nat) stmt list \<Rightarrow> (nat, nat) listener" where
  "returning k ss = Listener (\<lambda>a. ss) (\<lambda>i a. k)"

definition nesting :: "nat \<Rightarrow> (nat, nat) listener" where
  "nesting k = Listener (\<lambda>a. if a = 0 then [Call 1] else []) (\<lambda>i a. k + a)"

text \<open>
  \<open>tracked_pair\<close> is a fresh tracked callback after \<^verbatim>\<open>add\<close> of two functions: the two
  handles returned, the callback and the cell store.
  \<open>raising_once\<close> is a connectable, other than a callback, whose \<^verbatim>\<open>disconnect\<close>
  raises the first time it is called and returns true from then on; its state
  counts the calls.
\<close>

definition tracked_pair ::
  "'f \<Rightarrow> 'f \<Rightarrow> (unit, TrackedConnectionID) ConnectionT \<times> (unit, TrackedConnectionID) ConnectionT
     \<times> 'f TrackedCallback \<times> cell_store" where
  "tracked_pair f g =
     (case TrackedCallback_add f TrackedCallback_init \<lparr>cell = (\<lambda>p. 0), cells_used = 0\<rparr> of
        (c1, cb1, h1) \<Rightarrow>
          (case TrackedCallback_add g cb1 h1 of (c2, cb2, h2) \<Rightarrow> (c1, c2, cb2, h2)))"

definition raising_once :: "(unit, ConnectionID, nat) ConnectableT" where
  "raising_once c i w = (if w = 0 then Inl Exception else Inr True, Suc w)"

subsection \<open>Predicates of the statements\<close>

text \<open>
  \<open>frames_kept out cb\<close>: the outcome \<open>out\<close> of a run that started at \<open>cb\<close> has the
  frame stack at the height it found when it returned, and no lower when it ended in
  an error.
\<close>

definition frames_kept :: "('e + 'x) \<times> ('a, 'r) Callback \<Rightarrow> ('a, 'r) Callback \<Rightarrow> bool" where
  "frames_kept out cb =
     (case fst out of
        Inr x \<Rightarrow> length (callIter (snd out)) = length (callIter cb)
      | Inl e \<Rightarrow> length (callIter cb) \<le> length (callIter (snd out)))"



text \<open>
  \<open>no_cancel f\<close>: whatever its arguments, the function \<open>f\<close> cancels nothing: its
  statements are nested calls, failures and registrations of functions that are
  \<open>no_cancel\<close>. \<open>never_cancels cb\<close>: every registered function is \<open>no_cancel\<close>.
  \<open>pure_slot a s\<close>: the function of slot \<open>s\<close> is there and, called with \<open>a\<close>, does nothing
  to the callback. \<open>slot_result a s\<close>: what that function returns when it is called
  for slot \<open>s\<close> with \<open>a\<close>: it is passed the id of the slot and \<open>a\<close>.
\<close>

inductive no_cancel_stmt :: "('a, 'r) stmt \<Rightarrow> bool"
  and no_cancel :: "('a, 'r) listener \<Rightarrow> bool" where
  "no_cancel_stmt (Call b)"
| "no_cancel_stmt Throw"
| "no_cancel f \<Longrightarrow> no_cancel_stmt (Add f)"
| "(\<And>a. list_all no_cancel_stmt (body f a)) \<Longrightarrow> no_cancel f"

definition never_cancels :: "('a, 'r) Callback \<Rightarrow> bool" where
  "never_cancels cb =
     list_all (\<lambda>s. case func s of None \<Rightarrow> True | Some f \<Rightarrow> no_cancel f) (slots cb)"

definition slot_result :: "'a \<Rightarrow> (ConnectionID, ('a, 'r) listener) CallbackSlot \<Rightarrow> 'r option" where
  "slot_result a s = (case func s of None \<Rightarrow> None | Some f \<Rightarrow> Some (result f (slot_id s) a))"

definition pure_slot :: "'a \<Rightarrow> (ConnectionID, ('a, 'r) listener) CallbackSlot \<Rightarrow> bool" where
  "pure_slot a s = (case func s of None \<Rightarrow> False | Some f \<Rightarrow> body f a = [])"

text \<open>
  \<open>grow ns cb\<close>: the callback \<open>cb\<close> after as many calls of \<^verbatim>\<open>add\<close> as \<open>ns\<close> has
  nodes, which are now the last of the chain: the id counter and the allocator have
  moved on by their number, and the frames are as they were.
\<close>

definition grow ::
  "(ConnectionID, ('a, 'r) listener) CallbackSlot list \<Rightarrow> ('a, 'r) Callback \<Rightarrow> ('a, 'r) Callback" where
  "grow ns cb =
     cb\<lparr>highestID := highestID cb + of_nat (length ns),
        slots := slots cb @ ns,
        allocated := allocated cb + length ns\<rparr>"

section \<open>Evaluating the examples\<close>

lemmas registry_eval = registry_def add_def emplace_def Callback_init_def returning_def
  nesting_def disconnect_def clear_def push_frame_def pop_frame_def cursor_def set_cursor_def
  reset_id_def ConnectionID_reset_def Let_def eval_nat_numeral

lemmas callback_eval = registry_eval never_cancels_def pure_slot_def slot_result_def
  no_cancel.simps no_cancel_stmt.simps

lemmas tracked_eval = tracked_pair_def TrackedCallback_add_def TrackedCallback_emplace_def
  TrackedCallback_init_def TrackedConnectionID_make_def TrackedConnectionID_reset_def
  TrackedConnectionID_valid_def TrackedCallback_disconnect_def TrackedCallback_connectable_def
  TrackedConnection_disconnect_def Let_def

section \<open>Handles and guards: the proofs\<close>

subsection \<open>Cancelling through a tracked handle\<close>

text \<open>
  C8. A tracked callback with two registered functions \<open>f\<close> and \<open>g\<close>; \<open>c1\<close> and
  \<open>c2\<close> are the handles that the two \<^verbatim>\<open>add\<close> calls returned. Both are valid and they
  point to different cells. \<^verbatim>\<open>disconnect()\<close> runs on a copy of \<open>c2\<close>; the forwarded
  \<^verbatim>\<open>disconnect(id)\<close> returns true. Afterwards \<open>c2\<close>, which shares the cell of the handle
  that was cancelled, is still valid; \<open>c1\<close>, the handle of the other registration, is
  not: the loop of \<^verbatim>\<open>disconnect\<close> has reset the id of the slot before the one it
  found. Both functions are still on the chain.
\<close>

theorem cancel_through_tracked_handle_resets_the_cell_before:
  "(case tracked_pair f g of
      (c1, c2, cb, h) \<Rightarrow>
        TrackedConnectionID_valid (id_c c1) h \<and> TrackedConnectionID_valid (id_c c2) h
        \<and> id_c c1 \<noteq> id_c c2
        \<and> (case TrackedConnection_disconnect TrackedCallback_connectable c2 (cb, h) of
              (r, c2', cb', h') \<Rightarrow>
                r = Some (Inr True)
                \<and> TrackedConnectionID_valid (id_c c2) h'
                \<and> \<not> TrackedConnectionID_valid (id_c c1) h'
                \<and> map func (t_slots cb') = [Some f, Some g]))"
  by (simp add: tracked_eval)

subsection \<open>The guard\<close>

lemma guard_step_empty:
  "conn g = None \<Longrightarrow> guard_step d x g w = (None, \<lparr>conn = None, id_u = 0\<rparr>, w)"
  by (cases x) (simp_all add: UniqueConnection_disconnect_def UniqueConnection_dtor_def
      UniqueConnection_release_def)

lemma guard_run_empty:
  "conn g = None \<Longrightarrow>
     fst (guard_run d xs g w) = replicate (length xs) None \<and> snd (snd (guard_run d xs g w)) = w
     \<and> conn (fst (snd (guard_run d xs g w))) = None"
proof (induction xs arbitrary: g)
  case Nil
  then show ?case by simp
next
  case (Cons x xs)
  have "conn \<lparr>conn = None, id_u = 0\<rparr> = (None :: 'a option)" by simp
  from Cons.IH [OF this] show ?case
    using Cons.prems by (auto simp: guard_step_empty split: prod.splits)
qed

lemma guard_run_cleared:
  "guard_run d xs \<lparr>conn = None, id_u = 0\<rparr> w
     = (replicate (length xs) None, \<lparr>conn = None, id_u = 0\<rparr>, w)"
proof (induction xs)
  case Nil
  show ?case by simp
next
  case (Cons x xs)
  have "guard_step d x \<lparr>conn = None, id_u = 0\<rparr> w = (None, \<lparr>conn = None, id_u = 0\<rparr>, w)"
    by (simp add: guard_step_empty)
  with Cons show ?case by simp
qed

lemma guard_step_forwards:
  "conn g = Some c \<Longrightarrow> d c (id_u g) w = (Inr b, w') \<Longrightarrow> x = OpDisconnect \<or> x = OpDestroy \<Longrightarrow>
     guard_step d x g w = (Some (Inr b), \<lparr>conn = None, id_u = 0\<rparr>, w')"
  by (auto simp: UniqueConnection_disconnect_def UniqueConnection_dtor_def)

lemma exn_eq: "(e :: exn) = Exception"
  by (cases e)

lemma guard_step_cleared:
  "guard_step d x g w = (r, g', w') \<Longrightarrow> r \<noteq> Some (Inl Exception) \<Longrightarrow> conn g' = None"
  by (cases x)
    (auto simp: UniqueConnection_disconnect_def UniqueConnection_dtor_def
      UniqueConnection_release_def exn_eq split: option.splits sum.splits prod.splits)

lemma completed_not_raised: "completed r \<Longrightarrow> r \<noteq> Some (Inl Exception)"
  by (cases r rule: completed.cases) simp_all

lemma filter_replicate_None: "filter completed (replicate n None) = []"
  by (induction n) simp_all

lemma guard_run_once: "length (filter completed (fst (guard_run d xs g w))) \<le> 1"
proof (induction xs arbitrary: g w)
  case Nil
  then show ?case by simp
next
  case (Cons x xs)
  obtain r g' w' where st: "guard_step d x g w = (r, g', w')"
    by (cases "guard_step d x g w") auto
  show ?case
  proof (cases "completed r")
    case True
    then have "r \<noteq> Some (Inl Exception)" by (rule completed_not_raised)
    with st have "conn g' = None" by (rule guard_step_cleared)
    then have "fst (guard_run d xs g' w') = replicate (length xs) None"
      by (simp add: guard_run_empty)
    then have "filter completed (fst (guard_run d xs g' w')) = []"
      by (simp add: filter_replicate_None)
    then show ?thesis using st
      by (cases "guard_run d xs g' w'") simp
  next
    case False
    then show ?thesis using st Cons.IH [of g' w']
      by (cases "guard_run d xs g' w'") simp
  qed
qed

lemma guard_step_no_raise:
  "(\<And>c i w. fst (d c i w) \<noteq> Inl Exception) \<Longrightarrow>
     fst (guard_step d x g w) = None \<or> completed (fst (guard_step d x g w))"
proof -
  assume nr: "\<And>c i w. fst (d c i w) \<noteq> Inl Exception"
  have "fst (UniqueConnection_disconnect d g w) = None
      \<or> completed (fst (UniqueConnection_disconnect d g w))"
  proof (cases "conn g")
    case None
    then show ?thesis by (simp add: UniqueConnection_disconnect_def)
  next
    case (Some c)
    obtain r w' where e: "d c (id_u g) w = (r, w')" by (cases "d c (id_u g) w") auto
    with nr [of c "id_u g" w] obtain b where "r = Inr b"
      by (cases r) (auto simp: exn_eq)
    with Some e show ?thesis by (simp add: UniqueConnection_disconnect_def)
  qed
  then show ?thesis by (cases x) (simp_all add: UniqueConnection_dtor_def)
qed

lemma guard_run_no_raise:
  "(\<And>c i w. fst (d c i w) \<noteq> Inl Exception) \<Longrightarrow>
     filter forwarded (fst (guard_run d xs g w)) = filter completed (fst (guard_run d xs g w))"
proof (induction xs arbitrary: g w)
  case Nil
  show ?case by simp
next
  case (Cons x xs)
  obtain r g' w' where st: "guard_step d x g w = (r, g', w')"
    by (cases "guard_step d x g w") auto
  from guard_step_no_raise [of d x g w, OF Cons.prems] st
  have r: "forwarded r = completed r" by (cases r) auto
  from Cons.IH [OF Cons.prems, of g' w'] st r show ?case
    by (cases "guard_run d xs g' w'") simp
qed

text \<open>
  C9 (amended). A guard that holds a handle, on a connectable whose
  \<^verbatim>\<open>disconnect(id)\<close> returns for the id the guard holds: the first \<^verbatim>\<open>disconnect()\<close> or
  destruction forwards that one call, with the id held, and clears the guard, and
  every operation after it forwards nothing and leaves the connectable as it is. A
  callback is such a connectable: its \<^verbatim>\<open>disconnect\<close> never raises. \<^verbatim>\<open>release()\<close>
  forwards nothing and clears the guard as well. And whatever the connectable does
  and whatever the sequence of operations, at most one forwarded call returns; on a
  callback at most one call is forwarded at all.
\<close>

theorem guard_forwards_one_cancellation_then_nothing:
  "(conn g = Some c \<longrightarrow> d c (id_u g) w = (Inr b, w') \<longrightarrow> x = OpDisconnect \<or> x = OpDestroy \<longrightarrow>
      guard_run d (x # ys) g w
        = (Some (Inr b) # replicate (length ys) None, \<lparr>conn = None, id_u = 0\<rparr>, w'))
   \<and> (conn g = Some u \<longrightarrow> x = OpDisconnect \<or> x = OpDestroy \<longrightarrow>
      guard_run Callback_disconnect (x # ys) g cb
        = (Some (Inr (fst (disconnect (id_u g) cb))) # replicate (length ys) None,
           \<lparr>conn = None, id_u = 0\<rparr>, snd (disconnect (id_u g) cb)))
   \<and> guard_run d (OpRelease # ys) g w
        = (None # replicate (length ys) None, \<lparr>conn = None, id_u = 0\<rparr>, w)
   \<and> length (filter completed (fst (guard_run d xs g w))) \<le> 1
   \<and> length (filter forwarded (fst (guard_run Callback_disconnect zs g (cb :: ('a, 'r) Callback)))) \<le> 1"
proof (intro conjI impI)
  assume "conn g = Some c" "d c (id_u g) w = (Inr b, w')" "x = OpDisconnect \<or> x = OpDestroy"
  then have "guard_step d x g w = (Some (Inr b), \<lparr>conn = None, id_u = 0\<rparr>, w')"
    by (rule guard_step_forwards)
  then show "guard_run d (x # ys) g w
        = (Some (Inr b) # replicate (length ys) None, \<lparr>conn = None, id_u = 0\<rparr>, w')"
    by (simp add: guard_run_cleared)
next
  assume g: "conn g = Some u" and x: "x = OpDisconnect \<or> x = OpDestroy"
  have "Callback_disconnect u (id_u g) cb
      = (Inr (fst (disconnect (id_u g) cb)), snd (disconnect (id_u g) cb))"
    by (simp add: Callback_disconnect_def case_prod_beta)
  with g have "guard_step Callback_disconnect x g cb
      = (Some (Inr (fst (disconnect (id_u g) cb))), \<lparr>conn = None, id_u = 0\<rparr>,
         snd (disconnect (id_u g) cb))"
    using x by (rule guard_step_forwards)
  then show "guard_run Callback_disconnect (x # ys) g cb
        = (Some (Inr (fst (disconnect (id_u g) cb))) # replicate (length ys) None,
           \<lparr>conn = None, id_u = 0\<rparr>, snd (disconnect (id_u g) cb))"
    by (simp add: guard_run_cleared)
next
  show "guard_run d (OpRelease # ys) g w
        = (None # replicate (length ys) None, \<lparr>conn = None, id_u = 0\<rparr>, w)"
    by (simp add: UniqueConnection_release_def guard_run_cleared)
next
  show "length (filter completed (fst (guard_run d xs g w))) \<le> 1"
    by (rule guard_run_once)
next
  have "fst (Callback_disconnect c i w) \<noteq> Inl Exception" for c i and w :: "('a, 'r) Callback"
    by (simp add: Callback_disconnect_def split: prod.splits)
  then have "filter forwarded (fst (guard_run Callback_disconnect zs g cb))
      = filter completed (fst (guard_run Callback_disconnect zs g cb))"
    by (rule guard_run_no_raise)
  then show "length (filter forwarded (fst (guard_run Callback_disconnect zs g cb))) \<le> 1"
    using guard_run_once [of Callback_disconnect zs g cb] by simp
qed

theorem guard_forwards_one_cancellation_then_nothing_witness:
  "conn \<lparr>conn = Some (), id_u = 2\<rparr> = Some ()
   \<and> Callback_disconnect () (id_u \<lparr>conn = Some (), id_u = 2\<rparr>) (registry [returning 1 [], returning 2 []])
       = (Inr True, snd (disconnect 2 (registry [returning 1 [], returning 2 []])))
   \<and> guard_run Callback_disconnect [OpDestroy, OpDisconnect, OpDestroy]
         \<lparr>conn = Some (), id_u = 2\<rparr> (registry [returning 1 [], returning 2 []])
       = ([Some (Inr True), None, None], \<lparr>conn = None, id_u = 0\<rparr>,
          snd (disconnect 2 (registry [returning 1 [], returning 2 []])))
   \<and> guard_run Callback_disconnect [OpDisconnect, OpDestroy]
         \<lparr>conn = Some (), id_u = 2\<rparr> (registry [returning 1 [], returning 2 []])
       = ([Some (Inr True), None], \<lparr>conn = None, id_u = 0\<rparr>,
          snd (disconnect 2 (registry [returning 1 [], returning 2 []])))"
proof -
  let ?cb = "registry [returning 1 [], returning 2 []]"
  let ?g = "\<lparr>conn = Some (), id_u = 2 :: ConnectionID\<rparr>"
  have c: "conn ?g = Some ()" by simp
  have h: "Callback_disconnect () (id_u ?g) ?cb = (Inr True, snd (disconnect 2 ?cb))"
    by (simp add: Callback_disconnect_def registry_eval)
  have f: "fst (disconnect (id_u ?g) ?cb) = True" "id_u ?g = 2"
    by (simp_all add: registry_eval)
  note t = guard_forwards_one_cancellation_then_nothing
    [where g = ?g and c = "()" and d = Callback_disconnect and w = ?cb and b = True
      and w' = "snd (disconnect 2 ?cb)" and x = OpDestroy and ys = "[OpDisconnect, OpDestroy]"]
  have y: "OpDestroy = OpDisconnect \<or> OpDestroy = OpDestroy" by simp
  from t [THEN conjunct1, rule_format, OF c h y]
  have 1: "guard_run Callback_disconnect [OpDestroy, OpDisconnect, OpDestroy] ?g ?cb
       = ([Some (Inr True), None, None], \<lparr>conn = None, id_u = 0\<rparr>, snd (disconnect 2 ?cb))"
    by (simp del: guard_run.simps)
  have x: "OpDisconnect = OpDisconnect \<or> OpDisconnect = OpDestroy" by simp
  from guard_forwards_one_cancellation_then_nothing
    [where g = ?g and u = "()" and cb = ?cb and x = OpDisconnect and ys = "[OpDestroy]",
      THEN conjunct2, THEN conjunct1, rule_format, OF c x]
  have 2: "guard_run Callback_disconnect [OpDisconnect, OpDestroy] ?g ?cb
       = ([Some (Inr True), None], \<lparr>conn = None, id_u = 0\<rparr>, snd (disconnect 2 ?cb))"
    using f by (simp del: guard_run.simps)
  from c h 1 2 show ?thesis by (intro conjI)
qed

text \<open>
  The claim as stated fails for a connectable whose \<^verbatim>\<open>disconnect\<close> raises: the
  exception leaves \<^verbatim>\<open>disconnect()\<close> of the guard before the members are cleared. The
  guard holds id 5 on a connectable that raises at the first call. \<^verbatim>\<open>disconnect()\<close>
  forwards the call, which raises, and the guard still holds the handle; the
  destructor then forwards the call again, and only now is the guard cleared: the
  connectable was asked twice.
\<close>

theorem guard_on_raising_connectable_forwards_twice:
  "guard_step raising_once OpDisconnect \<lparr>conn = Some (), id_u = 5\<rparr> 0
     = (Some (Inl Exception), \<lparr>conn = Some (), id_u = 5\<rparr>, 1)
   \<and> guard_run raising_once [OpDisconnect, OpDestroy] \<lparr>conn = Some (), id_u = 5\<rparr> 0
       = ([Some (Inl Exception), Some (Inr True)], \<lparr>conn = None, id_u = 0\<rparr>, 2)"
  by (simp add: UniqueConnection_disconnect_def UniqueConnection_dtor_def raising_once_def)

section \<open>The registry: the proofs\<close>

subsection \<open>add\<close>

text \<open>
  \<^verbatim>\<open>add\<close> in one step: the new node is the last of the chain, at the address
  \<^verbatim>\<open>new\<close> returned, with the id \<^verbatim>\<open>++highestID_\<close> and the function; the frames are
  as they were.
\<close>

lemma back_id_snoc [simp]: "back_id (ss @ [s]) = Some (slot_id s)"
  by (induction ss rule: back_id.induct) simp_all

lemma set_back_func_snoc [simp]: "set_back_func f (ss @ [s]) = ss @ [s\<lparr>func := Some f\<rparr>]"
  by (induction ss rule: set_back_func.induct) simp_all

lemma add_eq:
  "add f cb =
     (highestID cb + 1,
      cb\<lparr>highestID := highestID cb + 1,
         slots := slots cb @ [\<lparr>addr = allocated cb, slot_id = highestID cb + 1, func = Some f\<rparr>],
         allocated := Suc (allocated cb)\<rparr>)"
  by (simp add: add_def emplace_def Let_def)

lemma frames_add [simp]: "callIter (snd (add f cb)) = callIter cb"
  by (simp add: add_eq)

subsection \<open>disconnect\<close>

text \<open>
  C1. \<^verbatim>\<open>disconnect\<close> on the id of the first entry: a registry with the one entry
  of id 1 is left empty by \<^verbatim>\<open>disconnect(1)\<close>, which returns false, because the branch
  for the first node does not return. And on the id of a later entry: in a registry
  with the ids 1 and 2, \<^verbatim>\<open>disconnect(2)\<close> returns true, resets the id of the entry
  before (the ids are then 0 and 2) and unlinks nothing, so a second
  \<^verbatim>\<open>disconnect(2)\<close> returns true again.
\<close>

theorem disconnect_first_entry_returns_false:
  "map slot_id (slots (registry [returning 1 []])) = [1]
   \<and> disconnect 1 (registry [returning 1 []])
       = (False, \<lparr>highestID = 1, slots = [], callIter = [], allocated = 1\<rparr>)
   \<and> map slot_id (slots (registry [returning 1 [], returning 2 []])) = [1, 2]
   \<and> fst (disconnect 2 (registry [returning 1 [], returning 2 []])) = True
   \<and> map slot_id (slots (snd (disconnect 2 (registry [returning 1 [], returning 2 []])))) = [0, 2]
   \<and> fst (disconnect 2 (snd (disconnect 2 (registry [returning 1 [], returning 2 []])))) = True"
  by (simp add: registry_eval)

subsection \<open>The frame stack\<close>

lemma length_checkErase [simp]: "length (checkErase p nx fs) = length fs"
  by (induction fs) simp_all

lemma frames_disconnect [simp]:
  "length (callIter (snd (disconnect i cb))) = length (callIter cb)"
  by (simp add: disconnect_def Let_def split: list.splits option.splits)

lemma frames_clear [simp]: "callIter (clear cb) = callIter cb"
  by (simp add: clear_def)

lemma frames_set_cursor [simp]: "length (callIter (set_cursor c cb)) = length (callIter cb)"
  by (simp add: set_cursor_def split: list.splits)

lemma frames_push [simp]: "length (callIter (push_frame cb)) = Suc (length (callIter cb))"
  by (simp add: push_frame_def)

lemma frames_pop [simp]: "length (callIter (pop_frame cb)) = length (callIter cb) - 1"
  by (simp add: pop_frame_def)


lemma loop_bad:
  "cursor cb < length (slots cb) \<Longrightarrow> func (slots cb ! cursor cb) = None \<Longrightarrow>
     loop (Suc n) a ret cb = Some (Inl BadFunctionCall, set_cursor (Suc (cursor cb)) cb)"
  by (simp add: Let_def)

lemma loop_step:
  "cursor cb < length (slots cb) \<Longrightarrow> func (slots cb ! cursor cb) = Some f \<Longrightarrow>
     loop (Suc n) a ret cb =
       (case run n (slot_id (slots cb ! cursor cb)) a (body f a) (set_cursor (Suc (cursor cb)) cb) of
          None \<Rightarrow> None
        | Some (Inl e, cb2) \<Rightarrow> Some (Inl e, cb2)
        | Some (Inr u, cb2) \<Rightarrow> loop n a (ret @ [result f (slot_id (slots cb ! cursor cb)) a]) cb2)"
  by (simp add: Let_def)

lemma frames_all:
  "(\<forall>a (cb :: ('a, 'r) Callback) out. call n a cb = Some out \<longrightarrow>
      (case fst out of
         Inr x \<Rightarrow> length (callIter (snd out)) = length (callIter cb)
       | Inl e \<Rightarrow> length (callIter cb) < length (callIter (snd out))))
   \<and> (\<forall>a ret (cb :: ('a, 'r) Callback) out. loop n a ret cb = Some out \<longrightarrow> frames_kept out cb)
   \<and> (\<forall>i a ss (cb :: ('a, 'r) Callback) out. run n i a ss cb = Some out \<longrightarrow> frames_kept out cb)"
proof (induction n)
  case 0
  show ?case by simp
next
  case (Suc n)
  note IHcall = Suc.IH [THEN conjunct1, rule_format]
  note IHloop = Suc.IH [THEN conjunct2, THEN conjunct1, rule_format]
  note IHrun = Suc.IH [THEN conjunct2, THEN conjunct2, rule_format]
  have c: "case fst out of
         Inr x \<Rightarrow> length (callIter (snd out)) = length (callIter cb)
       | Inl e \<Rightarrow> length (callIter cb) < length (callIter (snd out))"
    if "call (Suc n) a cb = Some out" for a and cb :: "('a, 'r) Callback" and out
  proof (cases "loop n a [] (push_frame cb)")
    case None
    with that show ?thesis by simp
  next
    case (Some o1)
    from IHloop [OF Some] show ?thesis using that Some
      by (cases o1; cases "fst o1") (auto simp: frames_kept_def)
  qed
  have l: "frames_kept out cb"
    if e: "loop (Suc n) a ret cb = Some out" for a ret and cb :: "('a, 'r) Callback" and out
  proof (cases "cursor cb < length (slots cb)")
    case False
    with e show ?thesis by (auto simp: frames_kept_def)
  next
    case True
    note t = this
    let ?slot = "slots cb ! cursor cb"
    let ?cb1 = "set_cursor (Suc (cursor cb)) cb"
    show ?thesis
    proof (cases "func ?slot")
      case None
      from e show ?thesis unfolding loop_bad [OF t None] by (auto simp: frames_kept_def)
    next
      case (Some f)
      note s = e [unfolded loop_step [OF t Some]]
      show ?thesis
      proof (cases "run n (slot_id ?slot) a (body f a) ?cb1")
        case None
        with s show ?thesis by simp
      next
        case (Some o1)
        note r = IHrun [OF Some]
        show ?thesis
        proof (cases o1)
          case (Pair r1 cb2)
          show ?thesis
          proof (cases r1)
            case (Inl x)
            with s Some Pair r show ?thesis by (auto simp: frames_kept_def)
          next
            case (Inr u)
            with s Some Pair
            have "loop n a (ret @ [result f (slot_id ?slot) a]) cb2 = Some out" by simp
            from IHloop [OF this] r Pair Inr show ?thesis
              by (auto simp: frames_kept_def split: sum.splits)
          qed
        qed
      qed
    qed
  qed
  have r: "frames_kept out cb"
    if "run (Suc n) i a ss cb = Some out" for i a ss and cb :: "('a, 'r) Callback" and out
  proof (cases ss)
    case Nil
    with that show ?thesis by (auto simp: frames_kept_def)
  next
    case (Cons s ss')
    show ?thesis
    proof (cases s)
      case (Disconnect j)
      with that Cons have "run n i a ss' (snd (disconnect j cb)) = Some out" by simp
      from IHrun [OF this] show ?thesis by (auto simp: frames_kept_def split: sum.splits)
    next
      case DisconnectSelf
      with that Cons have "run n i a ss' (snd (disconnect i cb)) = Some out" by simp
      from IHrun [OF this] show ?thesis by (auto simp: frames_kept_def split: sum.splits)
    next
      case Clear
      with that Cons have "run n i a ss' (clear cb) = Some out" by simp
      from IHrun [OF this] show ?thesis by (auto simp: frames_kept_def split: sum.splits)
    next
      case (Add f)
      with that Cons have "run n i a ss' (snd (add f cb)) = Some out" by simp
      from IHrun [OF this] show ?thesis by (auto simp: frames_kept_def split: sum.splits)
    next
      case Throw
      with that Cons show ?thesis by (auto simp: frames_kept_def)
    next
      case (Call b)
      show ?thesis
      proof (cases "call n b cb")
        case None
        with that Cons Call show ?thesis by simp
      next
        case (Some o1)
        note k = IHcall [OF Some]
        show ?thesis
        proof (cases o1)
          case (Pair r1 cb')
          show ?thesis
          proof (cases r1)
            case (Inl e)
            with that Cons Call Some Pair k show ?thesis by (auto simp: frames_kept_def)
          next
            case (Inr x)
            with that Cons Call Some Pair have "run n i a ss' cb' = Some out" by simp
            from IHrun [OF this] k Pair Inr show ?thesis
              by (auto simp: frames_kept_def split: sum.splits)
          qed
        qed
      qed
    qed
  qed
  from c l r show ?case by blast
qed

text \<open>
  C2 (amended). A call that returns leaves as many frames as it found; a call
  that ends with an error (a registered function raised) leaves more: the frame
  it pushed stays where \<^verbatim>\<open>callIter_\<close> points.
\<close>

theorem call_pops_frame_on_return:
  "call n a cb = Some (r, cb') \<Longrightarrow>
     (case r of
        Inr ret \<Rightarrow> length (callIter cb') = length (callIter cb)
      | Inl e \<Rightarrow> length (callIter cb) < length (callIter cb'))"
  using frames_all [of n, THEN conjunct1, rule_format, of a cb "(r, cb')"]
  by (cases r) simp_all

theorem call_pops_frame_on_return_witness:
  "call 10 0 (registry [returning 1 [], returning 2 []])
     = Some (Inr [1, 2], registry [returning 1 [], returning 2 []])
   \<and> length (callIter (registry [returning 1 [], returning 2 []]))
       = length (callIter (registry [returning 1 [], returning 2 []]))"
proof -
  have h: "call 10 0 (registry [returning 1 [], returning 2 []])
     = Some (Inr [1, 2], registry [returning 1 [], returning 2 []])"
    by (simp add: registry_eval)
  from call_pops_frame_on_return [OF h] h show ?thesis by simp
qed

text \<open>
  The claim as stated fails where a registered function raises: the first of two
  functions raises, the call ends with that failure, and the callback, which had
  no frame before the call, keeps the frame of the call, its cursor on the second
  slot (position 1).
\<close>

theorem call_failure_leaves_frame:
  "callIter (registry [returning 1 [Throw], returning 2 []]) = []
   \<and> fst (the (call 10 0 (registry [returning 1 [Throw], returning 2 []]))) = Inl ListenerFailure
   \<and> callIter (snd (the (call 10 0 (registry [returning 1 [Throw], returning 2 []]))))
       = [\<lparr>current = 1, next = None\<rparr>]"
  by (simp add: registry_eval)

subsection \<open>The ids that add issues\<close>

lemma upt_0_Suc: "[0..<Suc n] = 0 # map Suc [0..<n]"
  unfolding map_Suc_upt by (rule upt_conv_Cons) simp

lemma add_all_ids:
  "fst (add_all fs cb) = map (\<lambda>k. highestID cb + of_nat (Suc k)) [0..<length fs]
   \<and> highestID (snd (add_all fs cb)) = highestID cb + of_nat (length fs)
   \<and> map slot_id (slots (snd (add_all fs cb))) = map slot_id (slots cb) @ fst (add_all fs cb)"
proof (induction fs arbitrary: cb)
  case Nil
  show ?case by simp
next
  case (Cons f fs)
  let ?cb1 = "snd (add f cb)"
  obtain js cb2 where a: "add_all fs ?cb1 = (js, cb2)"
    by (cases "add_all fs ?cb1") auto
  have h1: "highestID ?cb1 = highestID cb + 1" by (simp add: add_eq)
  have s1: "map slot_id (slots ?cb1) = map slot_id (slots cb) @ [highestID cb + 1]"
    by (simp add: add_eq)
  from Cons.IH [of ?cb1] a h1 s1
  have js: "js = map (\<lambda>k. highestID cb + 1 + of_nat (Suc k)) [0..<length fs]"
    and h2: "highestID cb2 = highestID cb + 1 + of_nat (length fs)"
    and s2: "map slot_id (slots cb2) = map slot_id (slots cb) @ [highestID cb + 1] @ js"
    by simp_all
  have e: "add_all (f # fs) cb = ((highestID cb + 1) # js, cb2)"
    using a by (simp add: add_eq)
  have m: "map (\<lambda>k. highestID cb + of_nat (Suc k)) [0..<length (f # fs)]
      = (highestID cb + 1) # js"
    unfolding js by (simp add: upt_0_Suc o_def add.assoc add.commute del: upt_Suc)
  show ?case unfolding e m using h2 s2 by (simp add: add.assoc add.commute)
qed

lemma unat_offset:
  "unat (h :: 64 word) + k < 2 ^ 64 \<Longrightarrow> unat (h + of_nat k) = unat h + k"
  by (simp add: unat_word_ariths unat_of_nat take_bit_nat_eq_self)

lemma sorted_wrt_map_upt:
  "(\<And>j k. j < k \<Longrightarrow> k < n \<Longrightarrow> R (f j) (f k)) \<Longrightarrow> sorted_wrt R (map f [0..<n])"
  by (simp add: sorted_wrt_iff_nth_less)

text \<open>
  C7 (amended). As long as the counter does not pass \<open>2^64 - 1\<close>, the ids that a
  sequence of \<^verbatim>\<open>add\<close> calls issues are \<open>highestID + 1\<close>, \<open>highestID + 2\<close>, ...: strictly
  increasing, above the counter they started from (so never 0 and never an id
  issued before), pairwise distinct, and they are the ids of the new slots. The
  ids of the slots on the chain stay pairwise distinct when they were so before and
  none was above the counter, as in a fresh callback.
\<close>

theorem issued_ids_increase:
  assumes "unat (highestID cb) + length fs < 2 ^ 64"
  shows "fst (add_all fs cb) = map (\<lambda>k. highestID cb + of_nat (Suc k)) [0..<length fs]
    \<and> sorted_wrt (<) (fst (add_all fs cb))
    \<and> list_all (\<lambda>i. highestID cb < i \<and> i \<noteq> 0) (fst (add_all fs cb))
    \<and> distinct (fst (add_all fs cb))
    \<and> map slot_id (slots (snd (add_all fs cb))) = map slot_id (slots cb) @ fst (add_all fs cb)
    \<and> (list_all (\<lambda>s. slot_id s \<le> highestID cb) (slots cb) \<longrightarrow>
         distinct (map slot_id (slots cb)) \<longrightarrow>
         distinct (map slot_id (slots (snd (add_all fs cb)))))"
proof -
  let ?f = "\<lambda>k. highestID cb + of_nat (Suc k)"
  have ids: "fst (add_all fs cb) = map ?f [0..<length fs]"
    and sl: "map slot_id (slots (snd (add_all fs cb))) = map slot_id (slots cb) @ fst (add_all fs cb)"
    using add_all_ids [of fs cb] by simp_all
  have u: "unat (?f k) = unat (highestID cb) + Suc k" if "k < length fs" for k
    using that assms by (intro unat_offset) simp
  have lt: "?f j < ?f k" if "j < k" "k < length fs" for j k
    using that u [of j] u [of k] by (simp add: word_less_nat_alt)
  have s: "sorted_wrt (<) (map ?f [0..<length fs])"
    by (rule sorted_wrt_map_upt) (rule lt)
  have g: "highestID cb < ?f k" if "k < length fs" for k
    using u [OF that] by (simp add: word_less_nat_alt)
  have nz: "?f k \<noteq> 0" if "k < length fs" for k
    using u [OF that] by (metis Zero_not_Suc add_is_0 unat_0)
  have la: "list_all (\<lambda>i. highestID cb < i \<and> i \<noteq> 0) (map ?f [0..<length fs])"
    using g nz by (simp add: list_all_iff)
  have d: "distinct (map ?f [0..<length fs])"
    using s by (simp add: strict_sorted_iff)
  have live: "distinct (map slot_id (slots (snd (add_all fs cb))))"
    if old: "list_all (\<lambda>s. slot_id s \<le> highestID cb) (slots cb)"
      and od: "distinct (map slot_id (slots cb))"
  proof -
    have "set (map slot_id (slots cb)) \<inter> set (map ?f [0..<length fs]) = {}"
    proof (rule ccontr)
      assume "set (map slot_id (slots cb)) \<inter> set (map ?f [0..<length fs]) \<noteq> {}"
      then obtain i where i: "i \<in> set (map slot_id (slots cb))" "i \<in> set (map ?f [0..<length fs])"
        by blast
      from i(1) old have "i \<le> highestID cb" by (auto simp: list_all_iff)
      moreover from i(2) g have "highestID cb < i" by auto
      ultimately show False by simp
    qed
    with od d show ?thesis unfolding sl ids by simp
  qed
  show ?thesis unfolding ids using s la d sl [unfolded ids] live [unfolded ids] by simp
qed

theorem issued_ids_increase_witness:
  "unat (highestID (Callback_init :: (nat, nat) Callback))
       + length [returning 1 [], returning 2 [], returning 3 []] < 2 ^ 64
   \<and> list_all (\<lambda>s. slot_id s \<le> highestID (Callback_init :: (nat, nat) Callback))
         (slots (Callback_init :: (nat, nat) Callback))
   \<and> distinct (map slot_id (slots (Callback_init :: (nat, nat) Callback)))
   \<and> fst (add_all [returning 1 [], returning 2 [], returning 3 []] Callback_init) = [1, 2, 3]
   \<and> sorted_wrt (<) (fst (add_all [returning 1 [], returning 2 [], returning 3 []] Callback_init))
   \<and> distinct (fst (add_all [returning 1 [], returning 2 [], returning 3 []] Callback_init))
   \<and> map slot_id (slots (registry [returning 1 [], returning 2 [], returning 3 []])) = [1, 2, 3]
   \<and> distinct (map slot_id (slots (registry [returning 1 [], returning 2 [], returning 3 []])))"
proof -
  have h: "unat (highestID (Callback_init :: (nat, nat) Callback))
       + length [returning 1 [], returning 2 [], returning 3 []] < 2 ^ 64"
    by (simp add: Callback_init_def)
  have o: "list_all (\<lambda>s. slot_id s \<le> highestID (Callback_init :: (nat, nat) Callback))
         (slots (Callback_init :: (nat, nat) Callback))"
    "distinct (map slot_id (slots (Callback_init :: (nat, nat) Callback)))"
    by (simp_all add: Callback_init_def)
  have e: "fst (add_all [returning 1 [], returning 2 [], returning 3 []] Callback_init) = [1, 2, 3]"
    by (simp add: registry_eval)
  from issued_ids_increase [OF h] h o e show ?thesis
    by (simp add: registry_def Callback_init_def)
qed


lemma last_map_upt: "0 < n \<Longrightarrow> last (map f [0..<n]) = f (n - 1)"
  by (cases n) simp_all

text \<open>
  The claim as stated fails when the counter wraps: of \<open>2^64\<close> registrations on a
  fresh callback, the last one is issued the id 0.
\<close>

theorem id_zero_issued_after_wrap:
  "length (fst (add_all (replicate (2 ^ 64) (returning 1 [])) Callback_init)) = 2 ^ 64
   \<and> last (fst (add_all (replicate (2 ^ 64) (returning 1 [])) Callback_init)) = 0"
proof -
  let ?fs = "replicate (2 ^ 64) (returning 1 [])"
  have ids: "fst (add_all ?fs Callback_init)
      = map (\<lambda>k. highestID (Callback_init :: (nat, nat) Callback) + of_nat (Suc k)) [0..<length ?fs]"
    using add_all_ids [of ?fs Callback_init] by blast
  have n: "length ?fs = 2 ^ 64" by simp
  have z: "(of_nat (Suc (2 ^ 64 - 1)) :: 64 word) = 0"
  proof -
    have "Suc (2 ^ 64 - 1) = (2 ^ 64 :: nat)" by simp
    then show ?thesis by (simp only: of_nat_power of_nat_numeral) simp
  qed
  have "last (fst (add_all ?fs Callback_init))
      = highestID (Callback_init :: (nat, nat) Callback) + of_nat (Suc (2 ^ 64 - 1))"
    unfolding ids n by (rule last_map_upt) simp
  then have "last (fst (add_all ?fs Callback_init)) = 0"
    unfolding z by (simp add: Callback_init_def)
  moreover have "length (fst (add_all ?fs Callback_init)) = 2 ^ 64"
    unfolding ids n by simp
  ultimately show ?thesis by simp
qed

subsection \<open>The destructor\<close>

lemma reset_keeps_zero:
  "cell h p = 0 \<Longrightarrow> cell (snd (TrackedConnectionID_reset x h)) p = 0"
  by (simp add: TrackedConnectionID_reset_def split: option.splits)

lemma dtor_Cons:
  "TrackedCallback_dtor (s # ss) h =
     (s\<lparr>slot_id := fst (TrackedConnectionID_reset (slot_id s) h)\<rparr>
        # fst (TrackedCallback_dtor ss (snd (TrackedConnectionID_reset (slot_id s) h))),
      snd (TrackedCallback_dtor ss (snd (TrackedConnectionID_reset (slot_id s) h))))"
  by (simp add: case_prod_beta)

lemma dtor_keeps_zero:
  "cell h p = 0 \<Longrightarrow> cell (snd (TrackedCallback_dtor ss h)) p = 0"
proof (induction ss arbitrary: h)
  case Nil
  then show ?case by simp
next
  case (Cons s ss)
  from Cons.IH [OF reset_keeps_zero [OF Cons.prems, of "slot_id s"]] show ?case
    by (simp only: dtor_Cons snd_conv)
qed

lemma dtor_zeroes:
  "s \<in> set ss \<Longrightarrow> value (slot_id s) = Some p \<Longrightarrow> cell (snd (TrackedCallback_dtor ss h)) p = 0"
proof (induction ss arbitrary: h)
  case Nil
  then show ?case by simp
next
  case (Cons t ss)
  show ?case
  proof (cases "s = t")
    case True
    with Cons.prems have "cell (snd (TrackedConnectionID_reset (slot_id t) h)) p = 0"
      by (simp add: TrackedConnectionID_reset_def)
    from dtor_keeps_zero [OF this, of ss] show ?thesis by (simp only: dtor_Cons snd_conv)
  next
    case False
    with Cons.prems have "s \<in> set ss" by simp
    from Cons.IH [OF this Cons.prems(2), of "snd (TrackedConnectionID_reset (slot_id t) h)"]
    show ?thesis by (simp only: dtor_Cons snd_conv)
  qed
qed

lemma dtor_funcs: "map func (fst (TrackedCallback_dtor ss h)) = map func ss"
proof (induction ss arbitrary: h)
  case Nil
  show ?case by simp
next
  case (Cons s ss)
  from Cons [of "snd (TrackedConnectionID_reset (slot_id s) h)"] show ?case
    by (simp add: dtor_Cons del: TrackedCallback_dtor.simps)
qed

lemma dtor_ignores_funcs:
  "snd (TrackedCallback_dtor (map (\<lambda>s. s\<lparr>func := None\<rparr>) ss) h) = snd (TrackedCallback_dtor ss h)"
proof (induction ss arbitrary: h)
  case Nil
  show ?case by simp
next
  case (Cons s ss)
  from Cons [of "snd (TrackedConnectionID_reset (slot_id s) h)"] show ?case
    by (simp add: dtor_Cons del: TrackedCallback_dtor.simps)
qed

text \<open>
  C10. After the destructor of a tracked callback, a handle whose id points to the
  cell of a slot that was on the chain is not valid. The destructor leaves the
  functions of the slots as they are, and the cell store it produces is the same
  when the slots hold no functions: none is called.
\<close>

theorem destructor_invalidates_tracked_handles:
  "s \<in> set ss \<Longrightarrow> value (slot_id s) = Some p \<Longrightarrow> value (id_c h) = Some p \<Longrightarrow>
     \<not> TrackedConnectionID_valid (id_c h) (snd (TrackedCallback_dtor ss st))
     \<and> map func (fst (TrackedCallback_dtor ss st)) = map func ss
     \<and> snd (TrackedCallback_dtor (map (\<lambda>s. s\<lparr>func := None\<rparr>) ss) st)
         = snd (TrackedCallback_dtor ss st)"
  using dtor_zeroes [of s ss p st] dtor_funcs [of ss st] dtor_ignores_funcs [of ss st]
  by (simp add: TrackedConnectionID_valid_def)

theorem destructor_invalidates_tracked_handles_witness:
  "TrackedConnectionID_valid (id_c \<lparr>connectable = Some (), id_c = \<lparr>value = Some 1\<rparr>\<rparr>)
       (snd (TrackedConnectionID_make 2 (snd (TrackedConnectionID_make 1 \<lparr>cell = (\<lambda>p. 0), cells_used = 0\<rparr>))))
   \<and> fst (TrackedConnectionID_make 2 (snd (TrackedConnectionID_make 1 \<lparr>cell = (\<lambda>p. 0), cells_used = 0\<rparr>)))
       = \<lparr>value = Some 1\<rparr>
   \<and> \<not> TrackedConnectionID_valid (id_c \<lparr>connectable = Some (), id_c = \<lparr>value = Some 1\<rparr>\<rparr>)
       (snd (TrackedCallback_dtor
          [\<lparr>addr = 0, slot_id = \<lparr>value = Some 0\<rparr>, func = Some (returning 1 [])\<rparr>,
           \<lparr>addr = 1, slot_id = \<lparr>value = Some 1\<rparr>, func = Some (returning 2 [])\<rparr>]
          (snd (TrackedConnectionID_make 2 (snd (TrackedConnectionID_make 1 \<lparr>cell = (\<lambda>p. 0), cells_used = 0\<rparr>))))))"
proof -
  let ?s = "\<lparr>addr = 1, slot_id = \<lparr>value = Some 1\<rparr>, func = Some (returning 2 [])\<rparr>"
  let ?ss = "[\<lparr>addr = 0, slot_id = \<lparr>value = Some 0\<rparr>, func = Some (returning 1 [])\<rparr>, ?s]"
  let ?h = "\<lparr>connectable = Some (), id_c = \<lparr>value = Some 1\<rparr>\<rparr>"
  have 1: "?s \<in> set ?ss" by simp
  have 2: "value (slot_id ?s) = Some 1" by simp
  have 3: "value (id_c ?h) = Some 1" by simp
  from destructor_invalidates_tracked_handles [OF 1 2 3] show ?thesis
    by (simp add: TrackedConnectionID_valid_def TrackedConnectionID_make_def)
qed

subsection \<open>Cancelling during a call\<close>

text \<open>
  C3. In each step of the loop the cursor is moved on before the function of the
  captured slot runs: for the first slot of the registry below, the statements of
  the function run on the callback whose cursor is at position 1. But the cursor is
  a position, and \<^verbatim>\<open>disconnect\<close> does not adjust it (\<^verbatim>\<open>checkErase\<close> looks at the pointer
  \<^verbatim>\<open>next\<close> of the frames, which \<^verbatim>\<open>call()\<close> leaves null).
  \<^item> The first of two registered functions cancels its own registration. Its node is
    unlinked, the second slot is now at position 0, behind the cursor, and the loop
    ends: the call returns the value of the first function only. The second
    function is still registered, with its id 2, and was not called.
  \<^item> The same with three functions, the second of which cancels the third: the call
    returns the values of the first and the third; the second, which nobody has
    cancelled, is not called, so the third is not cancelled either.
  \<^item> The first of two functions cancels the second, the slot about to be visited:
    \<^verbatim>\<open>disconnect\<close> returns true, resets the id of the first slot and unlinks nothing,
    and the loop calls the second function all the same.
\<close>

theorem self_cancelling_first_listener_makes_call_skip_the_next:
  "loop 9 0 [] (push_frame (registry [returning 1 [DisconnectSelf], returning 2 []]))
     = (case run 8 1 0 [DisconnectSelf]
               (set_cursor 1 (push_frame (registry [returning 1 [DisconnectSelf], returning 2 []]))) of
          None \<Rightarrow> None
        | Some (Inl e, cb2) \<Rightarrow> Some (Inl e, cb2)
        | Some (Inr u, cb2) \<Rightarrow> loop 8 0 [1] cb2)
   \<and> call 10 0 (registry [returning 1 [DisconnectSelf], returning 2 []])
       = Some (Inr [1],
               \<lparr>highestID = 2,
                  slots = [\<lparr>addr = 1, slot_id = 2, func = Some (returning 2 [])\<rparr>],
                  callIter = [], allocated = 2\<rparr>)
   \<and> fst (the (call 10 0
         (registry [returning 1 [DisconnectSelf], returning 2 [Disconnect 3], returning 3 []])))
       = Inr [1, 3]
   \<and> map slot_id (slots (snd (the (call 10 0
         (registry [returning 1 [DisconnectSelf], returning 2 [Disconnect 3], returning 3 []])))))
       = [2, 3]
   \<and> fst (disconnect 2 (registry [returning 1 [Disconnect 2], returning 2 []])) = True
   \<and> fst (the (call 10 0 (registry [returning 1 [Disconnect 2], returning 2 []]))) = Inr [1, 2]
   \<and> map slot_id (slots (snd (the (call 10 0
         (registry [returning 1 [Disconnect 2], returning 2 []])))))
       = [0, 2]"
proof -
  let ?R = "registry [returning 1 [DisconnectSelf], returning 2 []]"
  have c: "cursor (push_frame ?R) < length (slots (push_frame ?R))" by (simp add: registry_eval)
  have f: "func (slots (push_frame ?R) ! cursor (push_frame ?R)) = Some (returning 1 [DisconnectSelf])"
    by (simp add: registry_eval)
  have c0: "cursor (push_frame ?R) = 0" by (simp add: registry_eval)
  have i: "slot_id (slots (push_frame ?R) ! cursor (push_frame ?R)) = 1"
    by (simp add: registry_eval)
  have b: "body (returning 1 [DisconnectSelf]) 0 = [DisconnectSelf]"
    "result (returning 1 [DisconnectSelf]) 1 0 = 1"
    by (simp_all add: returning_def)
  have n9: "(9 :: nat) = Suc 8" by simp
  have 1: "loop 9 0 [] (push_frame ?R)
     = (case run 8 1 0 [DisconnectSelf] (set_cursor 1 (push_frame ?R)) of
          None \<Rightarrow> None
        | Some (Inl e, cb2) \<Rightarrow> Some (Inl e, cb2)
        | Some (Inr u, cb2) \<Rightarrow> loop 8 0 [1] cb2)"
    unfolding n9 loop_step [OF c f] unfolding i b unfolding c0
    by (simp split: option.splits sum.splits prod.splits)
  have 2: "call 10 0 ?R
       = Some (Inr [1],
               \<lparr>highestID = 2,
                  slots = [\<lparr>addr = 1, slot_id = 2, func = Some (returning 2 [])\<rparr>],
                  callIter = [], allocated = 2\<rparr>)"
    by (simp add: registry_eval)
  have 3: "fst (the (call 10 0
         (registry [returning 1 [DisconnectSelf], returning 2 [Disconnect 3], returning 3 []])))
       = Inr [1, 3]"
    by (simp add: registry_eval)
  have 4: "map slot_id (slots (snd (the (call 10 0
         (registry [returning 1 [DisconnectSelf], returning 2 [Disconnect 3], returning 3 []])))))
       = [2, 3]"
    by (simp add: registry_eval)
  have 5: "fst (disconnect 2 (registry [returning 1 [Disconnect 2], returning 2 []])) = True"
    by (simp add: registry_eval)
  have 6: "fst (the (call 10 0 (registry [returning 1 [Disconnect 2], returning 2 []]))) = Inr [1, 2]"
    by (simp add: registry_eval)
  have 7: "map slot_id (slots (snd (the (call 10 0
         (registry [returning 1 [Disconnect 2], returning 2 []])))))
       = [0, 2]"
    by (simp add: registry_eval)
  from 1 2 3 4 5 6 7 show ?thesis by (intro conjI)
qed

subsection \<open>Dispatch without cancellation\<close>

lemma set_cursor_twice [simp]: "set_cursor c (set_cursor d cb) = set_cursor c cb"
  by (cases "callIter cb") (simp_all add: set_cursor_def)

lemma set_cursor_same: "cursor cb = c \<Longrightarrow> set_cursor c cb = cb"
  by (cases "callIter cb") (auto simp: set_cursor_def cursor_def)

lemma set_cursor_fields [simp]:
  "slots (set_cursor c cb) = slots cb"
  "callIter cb \<noteq> [] \<Longrightarrow> cursor (set_cursor c cb) = c"
  "(callIter (set_cursor c cb) = []) = (callIter cb = [])"
  by (cases "callIter cb"; simp add: set_cursor_def cursor_def)+

lemma never_cancels_frames [simp]:
  "never_cancels (set_cursor c cb) = never_cancels cb"
  "never_cancels (push_frame cb) = never_cancels cb"
  "never_cancels (pop_frame cb) = never_cancels cb"
  by (simp_all add: never_cancels_def push_frame_def pop_frame_def)

lemma push_frame_fields [simp]:
  "slots (push_frame cb) = slots cb"
  "cursor (push_frame cb) = 0"
  "callIter (push_frame cb) \<noteq> []"
  by (simp_all add: push_frame_def cursor_def)

lemma pop_push: "pop_frame (set_cursor c (push_frame cb)) = cb"
  by (simp add: pop_frame_def set_cursor_def push_frame_def)

text \<open>
  What a call leaves when nothing is cancelled: the callback it found, with the nodes
  registered meanwhile appended. \<open>grow\<close> commutes with the frame operations, and
  one \<^verbatim>\<open>add\<close> is \<open>grow\<close> by one node.
\<close>

lemma grow_Nil [simp]: "grow [] cb = cb"
  by (simp add: grow_def)

lemma grow_grow [simp]: "grow ms (grow ns cb) = grow (ns @ ms) cb"
  by (simp add: grow_def add.assoc)

lemma grow_fields [simp]:
  "slots (grow ns cb) = slots cb @ ns"
  "callIter (grow ns cb) = callIter cb"
  "cursor (grow ns cb) = cursor cb"
  by (simp_all add: grow_def cursor_def)

lemma grow_set_cursor: "set_cursor c (grow ns cb) = grow ns (set_cursor c cb)"
  by (simp add: grow_def set_cursor_def split: list.splits)

lemma grow_pop_frame: "pop_frame (grow ns cb) = grow ns (pop_frame cb)"
  by (simp add: grow_def pop_frame_def)

lemma add_grow:
  "snd (add f cb) = grow [\<lparr>addr = allocated cb, slot_id = highestID cb + 1, func = Some f\<rparr>] cb"
  by (simp add: add_eq grow_def)

lemma never_cancels_add: "never_cancels cb \<Longrightarrow> no_cancel f \<Longrightarrow> never_cancels (snd (add f cb))"
  by (simp add: never_cancels_def add_eq)

lemma no_cancel_body: "no_cancel f \<Longrightarrow> list_all no_cancel_stmt (body f a)"
  by (erule no_cancel.cases) simp

lemma never_cancels_slot:
  "never_cancels cb \<Longrightarrow> s \<in> set (slots cb) \<Longrightarrow> func s = Some f \<Longrightarrow> no_cancel f"
  by (auto simp: never_cancels_def list_all_iff split: option.splits)

text \<open>
  A call, a loop and the statements of a function, when no registered function
  cancels anything and none raises: the registered functions still are so, the
  callback is the one found with the new nodes appended, the cursor of the loop is
  behind the last of them, and the values returned are those of the slots from the
  cursor on, the new ones included.
\<close>

lemma quiet_all:
  "(\<forall>a (cb :: ('a, 'r) Callback) ret cb'.
      never_cancels cb \<longrightarrow> call n a cb = Some (Inr ret, cb') \<longrightarrow>
      never_cancels cb'
      \<and> (\<exists>ns. cb' = grow ns cb \<and> map Some ret = map (slot_result a) (slots cb @ ns)))
   \<and> (\<forall>a ret0 (cb :: ('a, 'r) Callback) ret cb'.
      never_cancels cb \<longrightarrow> callIter cb \<noteq> [] \<longrightarrow> cursor cb \<le> length (slots cb) \<longrightarrow>
      loop n a ret0 cb = Some (Inr ret, cb') \<longrightarrow>
      never_cancels cb'
      \<and> (\<exists>ns. cb' = grow ns (set_cursor (length (slots cb) + length ns) cb)
            \<and> map Some ret = map Some ret0 @ map (slot_result a) (drop (cursor cb) (slots cb @ ns))))
   \<and> (\<forall>i a ss (cb :: ('a, 'r) Callback) u cb'.
      never_cancels cb \<longrightarrow> list_all no_cancel_stmt ss \<longrightarrow>
      run n i a ss cb = Some (Inr u, cb') \<longrightarrow>
      never_cancels cb' \<and> (\<exists>ns. cb' = grow ns cb))"
proof (induction n)
  case 0
  show ?case by simp
next
  case (Suc n)
  note IHcall = Suc.IH [THEN conjunct1, rule_format]
  note IHloop = Suc.IH [THEN conjunct2, THEN conjunct1, rule_format]
  note IHrun = Suc.IH [THEN conjunct2, THEN conjunct2, rule_format]
  have c: "never_cancels cb'
      \<and> (\<exists>ns. cb' = grow ns cb \<and> map Some ret = map (slot_result a) (slots cb @ ns))"
    if q: "never_cancels cb" and e: "call (Suc n) a cb = Some (Inr ret, cb')"
    for a and cb :: "('a, 'r) Callback" and ret cb'
  proof -
    from e obtain cb1 where l: "loop n a [] (push_frame cb) = Some (Inr ret, cb1)"
      and p: "cb' = pop_frame cb1"
      by (auto split: option.splits sum.splits prod.splits)
    have "never_cancels cb1
      \<and> (\<exists>ns. cb1 = grow ns (set_cursor (length (slots (push_frame cb)) + length ns) (push_frame cb))
            \<and> map Some ret = map Some []
                 @ map (slot_result a) (drop (cursor (push_frame cb)) (slots (push_frame cb) @ ns)))"
      using q by (intro IHloop [OF _ _ _ l]) simp_all
    then obtain ns where 1: "never_cancels cb1"
      and 2: "cb1 = grow ns (set_cursor (length (slots cb) + length ns) (push_frame cb))"
      and 3: "map Some ret = map (slot_result a) (slots cb @ ns)"
      by auto
    from 2 p have g: "cb' = grow ns cb" by (simp add: grow_pop_frame pop_push)
    from 1 p have "never_cancels cb'" by simp
    with g 3 show ?thesis by blast
  qed
  have l: "never_cancels cb'
      \<and> (\<exists>ns. cb' = grow ns (set_cursor (length (slots cb) + length ns) cb)
            \<and> map Some ret = map Some ret0 @ map (slot_result a) (drop (cursor cb) (slots cb @ ns)))"
    if q: "never_cancels cb" and fr: "callIter cb \<noteq> []" and le: "cursor cb \<le> length (slots cb)"
      and e: "loop (Suc n) a ret0 cb = Some (Inr ret, cb')"
    for a ret0 and cb :: "('a, 'r) Callback" and ret cb'
  proof (cases "cursor cb < length (slots cb)")
    case False
    with le have eq: "cursor cb = length (slots cb)" by simp
    from e False have "cb' = cb" "ret = ret0" by simp_all
    moreover have "set_cursor (length (slots cb)) cb = cb" using eq by (simp add: set_cursor_same)
    ultimately show ?thesis using q eq by (intro conjI exI [of _ "[]"]) simp_all
  next
    case True
    note t = this
    let ?s = "slots cb ! cursor cb"
    let ?cb1 = "set_cursor (Suc (cursor cb)) cb"
    from e t obtain f where f: "func ?s = Some f"
      by (cases "func ?s") (auto simp: Let_def)
    from t have "?s \<in> set (slots cb)" by simp
    from never_cancels_slot [OF q this f] have nb: "list_all no_cancel_stmt (body f a)"
      by (rule no_cancel_body)
    from e [unfolded loop_step [OF t f]] obtain cb2 where
      r: "run n (slot_id ?s) a (body f a) ?cb1 = Some (Inr (), cb2)"
      and l2: "loop n a (ret0 @ [result f (slot_id ?s) a]) cb2 = Some (Inr ret, cb')"
      by (auto split: option.splits sum.splits prod.splits)
    have "never_cancels cb2 \<and> (\<exists>ns. cb2 = grow ns ?cb1)"
      using q nb by (intro IHrun [OF _ _ r]) simp_all
    then obtain ms where q2: "never_cancels cb2" and g2: "cb2 = grow ms ?cb1"
      by auto
    have sr: "slot_result a ?s = Some (result f (slot_id ?s) a)"
      using f by (simp add: slot_result_def)
    have c2: "cursor cb2 = Suc (cursor cb)" "callIter cb2 \<noteq> []" "slots cb2 = slots cb @ ms"
      using g2 fr by simp_all
    have "never_cancels cb'
        \<and> (\<exists>ns. cb' = grow ns (set_cursor (length (slots cb2) + length ns) cb2)
            \<and> map Some ret = map Some (ret0 @ [result f (slot_id ?s) a])
                 @ map (slot_result a) (drop (cursor cb2) (slots cb2 @ ns)))"
      using q2 c2 t by (intro IHloop [OF _ _ _ l2]) simp_all
    then obtain ns where q3: "never_cancels cb'"
      and g3: "cb' = grow ns (set_cursor (length (slots cb2) + length ns) cb2)"
      and m3: "map Some ret = map Some (ret0 @ [result f (slot_id ?s) a])
                 @ map (slot_result a) (drop (cursor cb2) (slots cb2 @ ns))"
      by auto
    from g3 g2 have g: "cb' = grow (ms @ ns) (set_cursor (length (slots cb) + length (ms @ ns)) cb)"
      by (simp add: grow_set_cursor add.assoc)
    from t have d: "drop (cursor cb) (slots cb @ ms @ ns)
        = ?s # drop (Suc (cursor cb)) (slots cb @ ms @ ns)"
      by (simp add: Cons_nth_drop_Suc [symmetric] nth_append)
    from m3 c2 sr have "map Some ret = map Some ret0
        @ map (slot_result a) (drop (cursor cb) (slots cb @ (ms @ ns)))"
      unfolding d by simp
    with g q3 show ?thesis by blast
  qed
  have r: "never_cancels cb' \<and> (\<exists>ns. cb' = grow ns cb)"
    if q: "never_cancels cb" and nc: "list_all no_cancel_stmt ss"
      and e: "run (Suc n) i a ss cb = Some (Inr u, cb')"
    for i a ss and cb :: "('a, 'r) Callback" and u cb'
  proof (cases ss)
    case Nil
    with e q show ?thesis by (intro conjI exI [of _ "[]"]) simp_all
  next
    case (Cons s ss')
    with nc have nc': "list_all no_cancel_stmt ss'" and s: "no_cancel_stmt s" by auto
    show ?thesis
    proof (cases s)
      case (Call b)
      with e Cons obtain x cb1 where k: "call n b cb = Some (Inr x, cb1)"
        and r2: "run n i a ss' cb1 = Some (Inr u, cb')"
        by (auto split: option.splits sum.splits prod.splits)
      from IHcall [OF q k] obtain ns where q1: "never_cancels cb1"
        and g1: "cb1 = grow ns cb" by auto
      from IHrun [OF q1 nc' r2] obtain ms where q2: "never_cancels cb'"
        and g2: "cb' = grow ms cb1" by auto
      from g1 g2 have "cb' = grow (ns @ ms) cb" by simp
      with q2 show ?thesis by blast
    next
      case (Add f)
      with s have nf: "no_cancel f" by (simp add: no_cancel_stmt.simps)
      from e Cons Add have r2: "run n i a ss' (snd (add f cb)) = Some (Inr u, cb')" by simp
      have q1: "never_cancels (snd (add f cb))"
        using q nf by (simp add: never_cancels_add)
      from IHrun [OF q1 nc' r2] obtain ms where q2: "never_cancels cb'"
        and g2: "cb' = grow ms (snd (add f cb))" by auto
      from g2 have "cb' = grow ([\<lparr>addr = allocated cb, slot_id = highestID cb + 1, func = Some f\<rparr>] @ ms) cb"
        by (simp add: add_grow)
      with q2 show ?thesis by blast
    qed (use s e Cons in \<open>simp_all add: no_cancel_stmt.simps\<close>)
  qed
  from c l r show ?case by blast
qed

lemma loop_pure:
  "callIter cb \<noteq> [] \<Longrightarrow> cursor cb \<le> length (slots cb) \<Longrightarrow>
   list_all (pure_slot a) (drop (cursor cb) (slots cb)) \<Longrightarrow> length (slots cb) - cursor cb = k \<Longrightarrow>
   k < n \<Longrightarrow>
   \<exists>ret. loop n a ret0 cb = Some (Inr ret, set_cursor (length (slots cb)) cb)
     \<and> map Some ret = map Some ret0 @ map (slot_result a) (drop (cursor cb) (slots cb))"
proof (induction k arbitrary: n ret0 cb)
  case 0
  then obtain m where "n = Suc m" by (cases n) auto
  with 0 show ?case by (simp add: set_cursor_same)
next
  case (Suc k)
  from Suc.prems(5) obtain m where n: "n = Suc m" and m: "k < m"
    by (cases n) auto
  from m obtain j where mj: "m = Suc j" by (cases m) auto
  from Suc.prems(4) have t: "cursor cb < length (slots cb)" by simp
  let ?s = "slots cb ! cursor cb"
  let ?cb1 = "set_cursor (Suc (cursor cb)) cb"
  from t have d: "drop (cursor cb) (slots cb) = ?s # drop (Suc (cursor cb)) (slots cb)"
    by (simp add: Cons_nth_drop_Suc)
  from Suc.prems(3) obtain f where f: "func ?s = Some f" and b: "body f a = []"
    unfolding d by (auto simp: pure_slot_def split: option.splits)
  have "\<exists>ret. loop m a (ret0 @ [result f (slot_id ?s) a]) ?cb1
        = Some (Inr ret, set_cursor (length (slots ?cb1)) ?cb1)
     \<and> map Some ret = map Some (ret0 @ [result f (slot_id ?s) a])
          @ map (slot_result a) (drop (cursor ?cb1) (slots ?cb1))"
    using Suc.prems t m unfolding d by (intro Suc.IH) simp_all
  then obtain ret where
    l: "loop m a (ret0 @ [result f (slot_id ?s) a]) ?cb1 = Some (Inr ret, set_cursor (length (slots cb)) cb)"
    and r: "map Some ret = map Some (ret0 @ [result f (slot_id ?s) a])
          @ map (slot_result a) (drop (Suc (cursor cb)) (slots cb))"
    using Suc.prems(1) by auto
  have "run m (slot_id ?s) a (body f a) ?cb1 = Some (Inr (), ?cb1)"
    unfolding b mj by simp
  with l have "loop n a ret0 cb = Some (Inr ret, set_cursor (length (slots cb)) cb)"
    unfolding n loop_step [OF t f] by simp
  with r f show ?case unfolding d by (auto simp: slot_result_def)
qed

lemma call_pure:
  "list_all (pure_slot a) (slots cb) \<Longrightarrow> length (slots cb) + 2 \<le> n \<Longrightarrow>
   \<exists>ret. call n a cb = Some (Inr ret, cb) \<and> map Some ret = map (slot_result a) (slots cb)"
proof -
  assume pu: "list_all (pure_slot a) (slots cb)" and n: "length (slots cb) + 2 \<le> n"
  from n obtain m where nm: "n = Suc m" and m: "length (slots cb) < m" by (cases n) auto
  have "\<exists>ret. loop m a [] (push_frame cb)
        = Some (Inr ret, set_cursor (length (slots (push_frame cb))) (push_frame cb))
     \<and> map Some ret = map Some []
          @ map (slot_result a) (drop (cursor (push_frame cb)) (slots (push_frame cb)))"
    using pu m by (intro loop_pure [where k = "length (slots cb)"]) simp_all
  then show ?thesis unfolding nm by (auto simp: pop_push)
qed

text \<open>
  C4. When no registered function cancels anything (they may call the callback again
  and register further functions), a call that returns has invoked the function of
  every slot that was on the chain when it started once, first to last, each with
  the id of its slot and the arguments of the call, and after them the functions of
  the slots registered meanwhile; it returns their values in that order and leaves
  the callback it found with the new slots appended. And when the functions do
  nothing to the callback (so that none calls it again), the call returns, given
  fuel for one step per slot, and leaves the callback as it was.
\<close>

theorem call_visits_every_listener_in_order:
  "(never_cancels cb \<longrightarrow> call n a cb = Some (Inr ret, cb') \<longrightarrow>
      (\<exists>ns. cb' = grow ns cb \<and> map Some ret = map (slot_result a) (slots cb @ ns)))
   \<and> (list_all (pure_slot a) (slots cb) \<longrightarrow> length (slots cb) + 2 \<le> m \<longrightarrow>
        (\<exists>ret. call m a cb = Some (Inr ret, cb) \<and> map Some ret = map (slot_result a) (slots cb)))"
proof (intro conjI impI)
  assume h: "never_cancels cb" "call n a cb = Some (Inr ret, cb')"
  from quiet_all [of n, THEN conjunct1, rule_format, OF h]
  show "\<exists>ns. cb' = grow ns cb \<and> map Some ret = map (slot_result a) (slots cb @ ns)"
    by (elim conjE)
next
  assume "list_all (pure_slot a) (slots cb)" "length (slots cb) + 2 \<le> m"
  then show "\<exists>ret. call m a cb = Some (Inr ret, cb) \<and> map Some ret = map (slot_result a) (slots cb)"
    by (intro call_pure)
qed

theorem call_visits_every_listener_in_order_witness:
  "never_cancels (registry [returning 1 [Add (returning 7 [])], returning 2 []])
   \<and> call 20 0 (registry [returning 1 [Add (returning 7 [])], returning 2 []])
       = Some (Inr [1, 2, 7],
               grow [\<lparr>addr = 2, slot_id = 3, func = Some (returning 7 [])\<rparr>]
                 (registry [returning 1 [Add (returning 7 [])], returning 2 []]))
   \<and> (\<exists>ns. grow [\<lparr>addr = 2, slot_id = 3, func = Some (returning 7 [])\<rparr>]
                 (registry [returning 1 [Add (returning 7 [])], returning 2 []])
               = grow ns (registry [returning 1 [Add (returning 7 [])], returning 2 []])
        \<and> map Some [1, 2, 7]
            = map (slot_result 0)
                (slots (registry [returning 1 [Add (returning 7 [])], returning 2 []]) @ ns))
   \<and> list_all (pure_slot 0) (slots (registry [returning 1 [], returning 2 [], returning 3 []]))
   \<and> (\<exists>ret. call 5 0 (registry [returning 1 [], returning 2 [], returning 3 []])
          = Some (Inr ret, registry [returning 1 [], returning 2 [], returning 3 []])
        \<and> map Some ret = [Some 1, Some 2, Some 3])"
proof -
  let ?N = "registry [returning 1 [Add (returning 7 [])], returning 2 []]"
  let ?R = "registry [returning 1 [], returning 2 [], returning 3 []]"
  let ?new = "\<lparr>addr = 2, slot_id = 3, func = Some (returning 7 [])\<rparr>"
  have nc: "never_cancels ?N" by (simp add: callback_eval)
  have c: "call 20 0 ?N = Some (Inr [1, 2, 7], grow [?new] ?N)"
    by (simp add: callback_eval grow_def)
  have p: "list_all (pure_slot 0) (slots ?R)" by (simp add: callback_eval)
  have l: "length (slots ?R) + 2 \<le> 5" by (simp add: callback_eval)
  have s: "map (slot_result 0) (slots ?R) = [Some 1, Some 2, Some 3]"
    by (simp add: callback_eval)
  from call_visits_every_listener_in_order
    [where cb = ?N and n = 20 and a = 0 and ret = "[1, 2, 7]" and cb' = "grow [?new] ?N",
      THEN conjunct1, rule_format, OF nc c]
  have 1: "\<exists>ns. grow [?new] ?N = grow ns ?N
        \<and> map Some [1, 2, 7] = map (slot_result 0) (slots ?N @ ns)" .
  from call_visits_every_listener_in_order
    [where cb = ?R and m = 5 and a = 0, THEN conjunct2, rule_format, OF p l]
  have 2: "\<exists>ret. call 5 0 ?R = Some (Inr ret, ?R) \<and> map Some ret = [Some 1, Some 2, Some 3]"
    unfolding s .
  from nc c 1 p 2 show ?thesis by (intro conjI)
qed

text \<open>
  C5 (amended). One step of the loop of a call, for a slot whose function starts
  with a nested \<^verbatim>\<open>call(b)\<close>, when nothing is cancelled and the loop gets to its end.
  The nested call runs on the callback in which the cursor of the invoking call
  already is behind the invoking slot. It returns, with the value for \<open>b\<close> of every
  function that was registered when it started, first to last, and of those it
  registered itself, and leaves that callback with the new slots appended and
  nothing else changed: the cursors of all enclosing frames are where they were.
  Then the rest of the function runs, and then the invoking loop goes on from the
  position behind the invoking slot.
\<close>

theorem nested_call_completes_before_outer_goes_on:
  assumes "never_cancels cb" and "callIter cb \<noteq> []"
    and "cursor cb = p" and "p < length (slots cb)" and "slots cb ! p = slot"
    and "func slot = Some f" and "body f a = Call b # ss"
    and "loop (Suc (Suc n)) a ret cb = Some (Inr ret', cb')"
  shows "\<exists>r ns ms.
       call n b (set_cursor (Suc p) cb) = Some (Inr r, grow ns (set_cursor (Suc p) cb))
     \<and> map Some r = map (slot_result b) (slots cb @ ns)
     \<and> cursor (grow ns (set_cursor (Suc p) cb)) = Suc p
     \<and> run n (slot_id slot) a ss (grow ns (set_cursor (Suc p) cb))
         = Some (Inr (), grow (ns @ ms) (set_cursor (Suc p) cb))
     \<and> loop (Suc n) a (ret @ [result f (slot_id slot) a]) (grow (ns @ ms) (set_cursor (Suc p) cb))
         = Some (Inr ret', cb')"
proof -
  let ?cb1 = "set_cursor (Suc p) cb"
  have q: "never_cancels ?cb1" using assms(1) by simp
  have t: "cursor cb < length (slots cb)" and f: "func (slots cb ! cursor cb) = Some f"
    using assms(3-6) by simp_all
  from assms(8) [unfolded loop_step [OF t f]] assms(3,5,7) obtain cb2 where
    r: "run (Suc n) (slot_id slot) a (Call b # ss) ?cb1 = Some (Inr (), cb2)"
    and l: "loop (Suc n) a (ret @ [result f (slot_id slot) a]) cb2 = Some (Inr ret', cb')"
    by (auto split: option.splits sum.splits prod.splits)
  from r obtain x cb3 where k: "call n b ?cb1 = Some (Inr x, cb3)"
    and r2: "run n (slot_id slot) a ss cb3 = Some (Inr (), cb2)"
    by (auto split: option.splits sum.splits prod.splits)
  from quiet_all [of n, THEN conjunct1, rule_format, OF q k]
  obtain ns where q3: "never_cancels cb3" and 3: "cb3 = grow ns ?cb1"
    and x: "map Some x = map (slot_result b) (slots cb @ ns)" by auto
  from assms(4,5) have "slot \<in> set (slots cb)" by auto
  from never_cancels_slot [OF assms(1) this assms(6)]
  have "list_all no_cancel_stmt (body f a)" by (rule no_cancel_body)
  then have nc: "list_all no_cancel_stmt ss" unfolding assms(7) by simp
  from quiet_all [of n, THEN conjunct2, THEN conjunct2, rule_format, OF q3 nc r2]
  obtain ms where "cb2 = grow ms cb3" by auto
  then have 2: "cb2 = grow (ns @ ms) ?cb1" unfolding 3 by simp
  have cu: "cursor (grow ns ?cb1) = Suc p"
    using assms(2) by simp
  from k r2 l x cu show ?thesis unfolding 3 2 by blast
qed

theorem nested_call_completes_before_outer_goes_on_witness:
  "never_cancels (push_frame (registry [nesting 10, returning 2 [], returning 3 []]))
   \<and> cursor (push_frame (registry [nesting 10, returning 2 [], returning 3 []])) = 0
   \<and> body (nesting 10) 0 = [Call 1]
   \<and> loop 9 0 [] (push_frame (registry [nesting 10, returning 2 [], returning 3 []]))
       = Some (Inr [10, 2, 3],
               set_cursor 3 (push_frame (registry [nesting 10, returning 2 [], returning 3 []])))
   \<and> (\<exists>r ns ms.
        call 7 1 (set_cursor 1 (push_frame (registry [nesting 10, returning 2 [], returning 3 []])))
          = Some (Inr r, grow ns (set_cursor 1
                    (push_frame (registry [nesting 10, returning 2 [], returning 3 []]))))
        \<and> map Some r
            = map (slot_result 1)
                (slots (push_frame (registry [nesting 10, returning 2 [], returning 3 []])) @ ns)
        \<and> loop 8 0 [10] (grow (ns @ ms) (set_cursor 1
              (push_frame (registry [nesting 10, returning 2 [], returning 3 []]))))
          = Some (Inr [10, 2, 3],
                  set_cursor 3 (push_frame (registry [nesting 10, returning 2 [], returning 3 []]))))"
proof -
  let ?R = "registry [nesting 10, returning 2 [], returning 3 []]"
  let ?s = "\<lparr>addr = 0, slot_id = 1, func = Some (nesting 10)\<rparr>"
  have nc: "never_cancels (push_frame ?R)" by (simp add: callback_eval)
  have fr: "callIter (push_frame ?R) \<noteq> []" by (simp add: push_frame_def)
  have c: "cursor (push_frame ?R) = 0" by (simp add: callback_eval)
  have lt: "0 < length (slots (push_frame ?R))" by (simp add: callback_eval)
  have s: "slots (push_frame ?R) ! 0 = ?s"
    by (simp add: registry_def add_eq Callback_init_def push_frame_def)
  have f: "func ?s = Some (nesting 10)" by simp
  have b: "body (nesting 10) 0 = Call 1 # []" by (simp add: nesting_def)
  have l: "loop (Suc (Suc 7)) 0 [] (push_frame ?R)
      = Some (Inr [10, 2, 3], set_cursor 3 (push_frame ?R))"
    by (simp add: callback_eval)
  have i: "[] @ [result (nesting 10) (slot_id ?s) 0] = [10]" by (simp add: nesting_def)
  from nested_call_completes_before_outer_goes_on [OF nc fr c lt s f b l]
  have 1: "\<exists>r ns ms.
        call 7 1 (set_cursor 1 (push_frame ?R))
          = Some (Inr r, grow ns (set_cursor 1 (push_frame ?R)))
        \<and> map Some r = map (slot_result 1) (slots (push_frame ?R) @ ns)
        \<and> loop 8 0 [10] (grow (ns @ ms) (set_cursor 1 (push_frame ?R)))
          = Some (Inr [10, 2, 3], set_cursor 3 (push_frame ?R))"
    unfolding i by (elim exE conjE) (intro exI conjI, simp_all)
  have l': "loop 9 0 [] (push_frame ?R) = Some (Inr [10, 2, 3], set_cursor 3 (push_frame ?R))"
    using l by simp
  have b': "body (nesting 10) 0 = [Call 1]" using b by simp
  from nc c b' l' 1 show ?thesis by (intro conjI)
qed

text \<open>
  The claim as stated fails on the order of the two events: the cursor of the
  invoking call passes the invoking slot before the nested call starts. The first
  of three registered functions calls the callback again: the loop, with its cursor
  on position 0, runs the nested call on the callback whose cursor is on
  position 1.
\<close>

theorem nested_call_starts_after_the_cursor_moved:
  "cursor (push_frame (registry [nesting 10, returning 2 [], returning 3 []])) = 0
   \<and> loop 9 0 [] (push_frame (registry [nesting 10, returning 2 [], returning 3 []]))
       = (case call 7 1 (set_cursor 1 (push_frame (registry [nesting 10, returning 2 [], returning 3 []]))) of
            None \<Rightarrow> None
          | Some (Inl e, cb1) \<Rightarrow> Some (Inl e, cb1)
          | Some (Inr r, cb1) \<Rightarrow>
              (case run 7 1 0 [] cb1 of
                 None \<Rightarrow> None
               | Some (Inl e, cb2) \<Rightarrow> Some (Inl e, cb2)
               | Some (Inr u, cb2) \<Rightarrow> loop 8 0 [10] cb2))
   \<and> cursor (set_cursor 1 (push_frame (registry [nesting 10, returning 2 [], returning 3 []])))
       = 1
   \<and> call 7 1 (set_cursor 1 (push_frame (registry [nesting 10, returning 2 [], returning 3 []])))
       = Some (Inr [11, 2, 3],
               set_cursor 1 (push_frame (registry [nesting 10, returning 2 [], returning 3 []])))"
proof -
  let ?R = "registry [nesting 10, returning 2 [], returning 3 []]"
  have c: "cursor (push_frame ?R) = 0" by (simp add: callback_eval)
  have t: "cursor (push_frame ?R) < length (slots (push_frame ?R))" by (simp add: callback_eval)
  have f: "func (slots (push_frame ?R) ! cursor (push_frame ?R)) = Some (nesting 10)"
    by (simp add: registry_def add_eq Callback_init_def push_frame_def cursor_def)
  have i: "slot_id (slots (push_frame ?R) ! cursor (push_frame ?R)) = 1"
    by (simp add: registry_def add_eq Callback_init_def push_frame_def cursor_def)
  have b: "body (nesting 10) 0 = [Call 1]" "result (nesting 10) 1 0 = 10"
    by (simp_all add: nesting_def)
  have l: "loop (Suc 8) 0 [] (push_frame ?R)
       = (case run 8 1 0 [Call 1] (set_cursor 1 (push_frame ?R)) of
            None \<Rightarrow> None
          | Some (Inl e, cb2) \<Rightarrow> Some (Inl e, cb2)
          | Some (Inr u, cb2) \<Rightarrow> loop 8 0 ([] @ [10]) cb2)"
    unfolding loop_step [OF t f] unfolding i b unfolding c by simp
  have r: "run (Suc 7) 1 0 [Call 1] cb
       = (case call 7 1 cb of
            None \<Rightarrow> None
          | Some (Inl e, cb1) \<Rightarrow> Some (Inl e, cb1)
          | Some (Inr r, cb1) \<Rightarrow> run 7 1 0 [] cb1)" for cb :: "(nat, nat) Callback"
    by (simp only: run.simps)
  have n9: "(9 :: nat) = Suc 8" and n8: "(8 :: nat) = Suc 7" by simp_all
  have 1: "loop 9 0 [] (push_frame ?R)
       = (case call 7 1 (set_cursor 1 (push_frame ?R)) of
            None \<Rightarrow> None
          | Some (Inl e, cb1) \<Rightarrow> Some (Inl e, cb1)
          | Some (Inr r, cb1) \<Rightarrow>
              (case run 7 1 0 [] cb1 of
                 None \<Rightarrow> None
               | Some (Inl e, cb2) \<Rightarrow> Some (Inl e, cb2)
               | Some (Inr u, cb2) \<Rightarrow> loop 8 0 [10] cb2))"
    unfolding n9 l unfolding n8 r by (simp split: option.splits sum.splits prod.splits)
  have 2: "cursor (set_cursor 1 (push_frame ?R)) = 1" by (simp add: callback_eval)
  have 3: "call 7 1 (set_cursor 1 (push_frame ?R))
       = Some (Inr [11, 2, 3], set_cursor 1 (push_frame ?R))"
    by (simp add: callback_eval)
  from c 1 2 3 show ?thesis by (intro conjI)
qed

subsection \<open>clear\<close>










end
